theory Spec2Isabelle
  imports Complex_Main
begin

section \<open>The notebook's solver and benchmark harness\<close>

text \<open>
  The development embeds the Python code of \<^verbatim>\<open>AdvancedPython/TheNeedForSpeed.ipynb\<close>:
  the solver skeleton \<^verbatim>\<open>gaussSimple\<close>, the instance generator \<^verbatim>\<open>randProb\<close> and the
  benchmark driver \<^verbatim>\<open>speed\<close> of the module \<^verbatim>\<open>gausstest.py\<close> that the notebook writes.

  A Python dictionary keyed by index pairs is a partial map; a Python list is a HOL list;
  an exception is the \<open>Inl\<close> branch of a sum. The entries of matrices and vectors are
  Python floats, idealised here as \<^typ>\<open>real\<close>: arithmetic is exact, there is no
  rounding, no overflow, no infinity and no NaN. The idealisation agrees with the doubles
  of the program where every value met is a small integer; which way the residual check of
  \<^verbatim>\<open>gaussSimple\<close> goes on other inputs is a matter of IEEE arithmetic and is not
  claimed below. What is proved about \<^verbatim>\<open>gaussSimple\<close> concerns its input assertions,
  its copies and its effect on the caller's objects, which come before or do not depend
  on that arithmetic, and its run on inputs of small integers. The C++ function
  \<^verbatim>\<open>gauss\<close> of the notebook is not embedded.
\<close>

subsection \<open>Data\<close>

type_synonym matrix = "nat \<times> nat \<rightharpoonup> real"

type_synonym problem = "matrix \<times> real list"

text \<open>The messages of the \<^verbatim>\<open>assert\<close> statements of the source, one constructor each.\<close>

datatype assertion =
    Matrix_wrong_size
  | Sparse_matrix
  | Incorrect_solution real
  | Size_not_positive

text \<open>\<^verbatim>\<open>ValueError\<close> is what \<^verbatim>\<open>max\<close> raises on an empty sequence.\<close>

datatype error = AssertionError assertion | ValueError

subsection \<open>The solver \<^verbatim>\<open>gaussSimple\<close>\<close>

text \<open>\<^verbatim>\<open>max(iterable)\<close>: the running maximum from the first element on.\<close>

fun py_max :: "real list \<Rightarrow> error + real" where
  "py_max [] = Inl ValueError"
| "py_max (v # vs) = Inr (foldl max v vs)"

text \<open>
  The generator \<^verbatim>\<open>abs(sum(A[i,j]*x[j] for j in N)-b[i]) for i in N\<close>, in exact
  arithmetic. The lookups \<^verbatim>\<open>A[i,j]\<close> are only evaluated after the assertion that
  every index pair is a key.
\<close>

definition residuals :: "matrix \<Rightarrow> real list \<Rightarrow> real list \<Rightarrow> nat list \<Rightarrow> real list" where
  "residuals A x b N =
     map (\<lambda>i. \<bar>sum_list (map (\<lambda>j. the (A (i, j)) * x ! j) N) - b ! i\<bar>) N"

text \<open>
  The body between the two copies and the residual check is the placeholder
  \<^verbatim>\<open>## insert your code here\<close>: no statement is executed there, so \<open>U\<close> is never
  read again and \<open>x\<close> still holds the copy of \<open>b\<close> when the residual is computed.
  The tolerance \<^verbatim>\<open>1e-5\<close> is taken as the rational \<open>1/100000\<close>.
\<close>

definition gaussSimple :: "matrix \<Rightarrow> real list \<Rightarrow> error + real list" where
  "gaussSimple A b =
     (let n = length b; N = [0..<n] in
      if card (dom A) \<noteq> n * n then Inl (AssertionError Matrix_wrong_size)
      else if \<not> (\<forall>i \<in> set N. \<forall>j \<in> set N. (i, j) \<in> dom A)
        then Inl (AssertionError Sparse_matrix)
      else
        let U = A; x = b in
        (case py_max (residuals A x b N) of
           Inl e \<Rightarrow> Inl e
         | Inr err \<Rightarrow>
             if \<not> err < 1 / 100000 then Inl (AssertionError (Incorrect_solution err))
             else Inr x))"

text \<open>The input invariant of the data model: a dense \<open>n\<close> by \<open>n\<close> matrix.\<close>

definition dense :: "matrix \<Rightarrow> nat \<Rightarrow> bool" where
  "dense A n \<longleftrightarrow> dom A = {..<n} \<times> {..<n}"

subsection \<open>The solver on a store of Python objects\<close>

text \<open>
  Python passes the dictionary and the list by reference. To speak about what a call does
  to the caller's objects, the same function is written once more over a store: a
  reference is an index into the list of objects, \<^verbatim>\<open>dict(A.items())\<close> and \<^verbatim>\<open>b[:]\<close>
  allocate new objects, the residual is computed from the objects the references
  \<open>A\<close>, \<open>x\<close> and \<open>b\<close> point to at that moment, and the function returns the reference
  \<open>x\<close>. The result is \<open>None\<close> when the arguments are not references to a dictionary and
  a list of the store.
\<close>

datatype pyobj = Dict matrix | List "real list"

type_synonym heap = "pyobj list"

definition deref :: "heap \<Rightarrow> nat \<Rightarrow> pyobj option" where
  "deref h r = (if r < length h then Some (h ! r) else None)"

definition alloc :: "pyobj \<Rightarrow> heap \<Rightarrow> nat \<times> heap" where
  "alloc obj h = (length h, h @ [obj])"

definition gaussSimple_h :: "nat \<Rightarrow> nat \<Rightarrow> heap \<Rightarrow> ((error + nat) \<times> heap) option" where
  "gaussSimple_h A b h =
     (case (deref h A, deref h b) of
        (Some (Dict Av), Some (List bv)) \<Rightarrow>
          (let n = length bv; N = [0..<n] in
           if card (dom Av) \<noteq> n * n then Some (Inl (AssertionError Matrix_wrong_size), h)
           else if \<not> (\<forall>i \<in> set N. \<forall>j \<in> set N. (i, j) \<in> dom Av)
             then Some (Inl (AssertionError Sparse_matrix), h)
           else
             (case alloc (Dict Av) h of (U, h1) \<Rightarrow>
                (case alloc (List bv) h1 of (x, h2) \<Rightarrow>
                   (case (deref h2 A, deref h2 x, deref h2 b) of
                      (Some (Dict A'), Some (List xv), Some (List bv')) \<Rightarrow>
                        (case py_max (residuals A' xv bv' N) of
                           Inl e \<Rightarrow> Some (Inl e, h2)
                         | Inr err \<Rightarrow>
                             if \<not> err < 1 / 100000
                             then Some (Inl (AssertionError (Incorrect_solution err)), h2)
                             else Some (Inr x, h2))
                    | _ \<Rightarrow> None))))
      | _ \<Rightarrow> None)"

text \<open>What the caller sees of a result: the exception, or the object returned.\<close>

definition outcome :: "heap \<Rightarrow> error + nat \<Rightarrow> error + pyobj option" where
  "outcome h r = (case r of Inl e \<Rightarrow> Inl e | Inr x \<Rightarrow> Inr (deref h x))"

subsection \<open>The instance generator \<^verbatim>\<open>randProb\<close>\<close>

text \<open>
  \<^verbatim>\<open>random()\<close> reads and advances the state of the module's generator. The generator is
  a parameter: a function from a state to a value and the next state. \<open>draw_each\<close> is a
  comprehension that calls \<^verbatim>\<open>random()\<close> once per element, in order.
\<close>

fun draw_each :: "('g \<Rightarrow> real \<times> 'g) \<Rightarrow> 'k list \<Rightarrow> 'g \<Rightarrow> ('k \<times> real) list \<times> 'g" where
  "draw_each rnd [] g = ([], g)"
| "draw_each rnd (k # ks) g =
     (case rnd g of (v, g1) \<Rightarrow>
        (case draw_each rnd ks g1 of (ps, g2) \<Rightarrow> ((k, v) # ps, g2)))"

text \<open>\<^verbatim>\<open>dict(pairs)\<close>: the pairs are stored in order, a later one replacing an earlier one.\<close>

definition dict :: "('k \<times> 'v) list \<Rightarrow> ('k \<rightharpoonup> 'v)" where
  "dict ps = foldl (\<lambda>m (k, v). m(k \<mapsto> v)) Map.empty ps"

text \<open>
  The argument is the value of \<^verbatim>\<open>int(n)\<close>. The dictionary is built first, row by row,
  then the list.
\<close>

definition randProb :: "('g \<Rightarrow> real \<times> 'g) \<Rightarrow> int \<Rightarrow> 'g \<Rightarrow> (error + problem) \<times> 'g" where
  "randProb rnd n g =
     (if \<not> 0 < n then (Inl (AssertionError Size_not_positive), g)
      else
        let N = [0..<nat n] in
        (case draw_each rnd (concat (map (\<lambda>i. map (\<lambda>j. (i, j)) N) N)) g of (ps, g1) \<Rightarrow>
           (case draw_each rnd N g1 of (qs, g2) \<Rightarrow>
              (Inr (dict ps, map snd qs), g2))))"

subsection \<open>The benchmark driver \<^verbatim>\<open>speed\<close>\<close>

text \<open>
  The driver works on the state of the Python process, through library functions. Of
  the library, the model takes as parameters what the code cannot know: the generator
  behind \<^verbatim>\<open>random()\<close>, the state that \<^verbatim>\<open>seed(s)\<close> installs, and the reading that the
  \<open>k\<close>-th call of \<^verbatim>\<open>time.process_time()\<close> returns.
\<close>

record 'g runtime =
  random :: "'g \<Rightarrow> real \<times> 'g"
  seed :: "int \<Rightarrow> 'g"
  process_time :: "nat \<Rightarrow> real"

text \<open>One printed line: the size, the mean, the deviation and, when printed, the ratio.\<close>

record report =
  rep_size :: int
  rep_mean :: real
  rep_stdev :: real
  rep_ratio :: "real option"

text \<open>
  The effects of a run, in the order they happen. A call of the solver records the
  instance it is given and whether the collector is enabled at that moment.
\<close>

datatype event =
    Seed int
  | GcDisable
  | GcEnable
  | GcCollect
  | Generate problem
  | Timer real
  | Call problem bool
  | Print report

record 'g world =
  rng :: 'g
  gc_enabled :: bool
  ticks :: nat
  trace :: "event list"

text \<open>
  An exception that leaves the driver: the assertion of \<^verbatim>\<open>randProb\<close> in the setup, or
  whatever the solver raised.
\<close>

datatype 'e exn = Setup error | Solver 'e

definition emit :: "event \<Rightarrow> 'g world \<Rightarrow> 'g world" where
  "emit e w = w\<lparr>trace := trace w @ [e]\<rparr>"

definition gc_disable :: "'g world \<Rightarrow> 'g world" where
  "gc_disable w = emit GcDisable (w\<lparr>gc_enabled := False\<rparr>)"

definition gc_enable :: "'g world \<Rightarrow> 'g world" where
  "gc_enable w = emit GcEnable (w\<lparr>gc_enabled := True\<rparr>)"

definition gc_collect :: "'g world \<Rightarrow> 'g world" where
  "gc_collect w = emit GcCollect w"

definition set_seed :: "'g runtime \<Rightarrow> int \<Rightarrow> 'g world \<Rightarrow> 'g world" where
  "set_seed rt s w = emit (Seed s) (w\<lparr>rng := seed rt s\<rparr>)"

definition timer :: "'g runtime \<Rightarrow> 'g world \<Rightarrow> real \<times> 'g world" where
  "timer rt w =
     (let t = process_time rt (ticks w)
      in (t, emit (Timer t) (w\<lparr>ticks := Suc (ticks w)\<rparr>)))"

text \<open>\<^verbatim>\<open>randP = lambda n : randProb(n)\<close>, on the generator of the process.\<close>

definition randP :: "'g runtime \<Rightarrow> int \<Rightarrow> 'g world \<Rightarrow> (error + problem) \<times> 'g world" where
  "randP rt n w =
     (case randProb (random rt) n (rng w) of
        (Inl e, g) \<Rightarrow> (Inl e, w\<lparr>rng := g\<rparr>)
      | (Inr p, g) \<Rightarrow> (Inr p, emit (Generate p) (w\<lparr>rng := g\<rparr>)))"

text \<open>
  The library function \<^verbatim>\<open>timeit.repeat(stmt, setup, timer, repeat, number)\<close>, for the
  arguments of the call in \<^verbatim>\<open>speed\<close>: \<^verbatim>\<open>stmt\<close> is \<^verbatim>\<open>method(A,b)\<close>, \<^verbatim>\<open>setup\<close> is
  \<^verbatim>\<open>A,b=randP(n)\<close>, \<^verbatim>\<open>number\<close> is 1. Its three layers are those of the module
  \<^verbatim>\<open>timeit\<close>: \<open>inner\<close> runs the setup, reads the timer, runs the statement \<^verbatim>\<open>number\<close>
  times and reads the timer again; \<open>timeit\<close> disables the collector around \<open>inner\<close> and
  enables it afterwards if it was enabled before, also when \<open>inner\<close> raises;
  \<open>repeat\<close> calls \<open>timeit\<close> the given number of times and collects the timings.
  The solver is a function of the instance: it has no access to the generator, the
  collector or the clock.
\<close>

definition inner ::
  "'g runtime \<Rightarrow> (problem \<Rightarrow> 'e + 'r) \<Rightarrow> int \<Rightarrow> 'g world \<Rightarrow> ('e exn + real) \<times> 'g world" where
  "inner rt method n w =
     (case randP rt n w of
        (Inl e, w1) \<Rightarrow> (Inl (Setup e), w1)
      | (Inr p, w1) \<Rightarrow>
          (case timer rt w1 of (t0, w2) \<Rightarrow>
             (let w3 = emit (Call p (gc_enabled w2)) w2 in
              case method p of
                Inl e \<Rightarrow> (Inl (Solver e), w3)
              | Inr x \<Rightarrow> (case timer rt w3 of (t1, w4) \<Rightarrow> (Inr (t1 - t0), w4)))))"

definition timeit ::
  "'g runtime \<Rightarrow> (problem \<Rightarrow> 'e + 'r) \<Rightarrow> int \<Rightarrow> 'g world \<Rightarrow> ('e exn + real) \<times> 'g world" where
  "timeit rt method n w =
     (let gcold = gc_enabled w; w1 = gc_disable w in
      case inner rt method n w1 of
        (timing, w2) \<Rightarrow> (timing, if gcold then gc_enable w2 else w2))"

fun repeat ::
  "'g runtime \<Rightarrow> (problem \<Rightarrow> 'e + 'r) \<Rightarrow> int \<Rightarrow> nat \<Rightarrow> 'g world \<Rightarrow> ('e exn + real list) \<times> 'g world" where
  "repeat rt method n 0 w = (Inr [], w)"
| "repeat rt method n (Suc k) w =
     (case timeit rt method n w of
        (Inl e, w1) \<Rightarrow> (Inl e, w1)
      | (Inr t, w1) \<Rightarrow>
          (case repeat rt method n k w1 of
             (Inl e, w2) \<Rightarrow> (Inl e, w2)
           | (Inr r, w2) \<Rightarrow> (Inr (t # r), w2)))"

text \<open>
  \<^verbatim>\<open>statistics.mean\<close> and \<^verbatim>\<open>statistics.stdev\<close>, on the five timings that
  \<^verbatim>\<open>timeit.repeat\<close> returns; they raise on fewer than one and two values.
\<close>

definition mean :: "real list \<Rightarrow> real" where
  "mean xs = sum_list xs / real (length xs)"

definition stdev :: "real list \<Rightarrow> real" where
  "stdev xs = sqrt (sum_list (map (\<lambda>x. (x - mean xs)\<^sup>2) xs) / real (length xs - 1))"

text \<open>The body of the \<^verbatim>\<open>while\<close> loop, up to the assignment of \<^verbatim>\<open>prev\<close>.\<close>

definition size_step ::
  "'g runtime \<Rightarrow> (problem \<Rightarrow> 'e + 'r) \<Rightarrow> int \<Rightarrow> real \<Rightarrow> 'g world \<Rightarrow> ('e exn + real) \<times> 'g world" where
  "size_step rt method n prev w =
     (let w1 = gc_collect w in
      case repeat rt method n 5 w1 of
        (Inl e, w2) \<Rightarrow> (Inl e, w2)
      | (Inr t, w2) \<Rightarrow>
          (Inr (mean t),
           emit (Print \<lparr>rep_size = n, rep_mean = mean t, rep_stdev = stdev t,
                        rep_ratio = (if prev > 0 then Some (mean t / prev) else None)\<rparr>) w2))"

text \<open>
  The loop \<^verbatim>\<open>while n <= maxSize\<close>. For an arbitrary \<open>n\<close> it need not end (from
  \<open>n = 0\<close> it would not), so it is a partial function, \<open>None\<close> standing for a loop that
  runs forever; that it ends from \<open>n = 50\<close> is proved below.
\<close>

partial_function (option) speed_loop ::
  "'g runtime \<Rightarrow> (problem \<Rightarrow> 'e + 'r) \<Rightarrow> int \<Rightarrow> int \<Rightarrow> real \<Rightarrow> 'g world
     \<Rightarrow> (('e exn + unit) \<times> 'g world) option" where
  "speed_loop rt method maxSize n prev w =
     (if n \<le> maxSize then
        (case size_step rt method n prev w of
           (Inl e, w1) \<Rightarrow> Some (Inl e, w1)
         | (Inr m, w1) \<Rightarrow> speed_loop rt method maxSize (n * 2) m w1)
      else Some (Inr (), w))"

text \<open>An exception leaves \<^verbatim>\<open>speed\<close> at once: the final \<^verbatim>\<open>gc.enable()\<close> is not reached.\<close>

definition speed ::
  "'g runtime \<Rightarrow> (problem \<Rightarrow> 'e + 'r) \<Rightarrow> int \<Rightarrow> 'g world \<Rightarrow> (('e exn + unit) \<times> 'g world) option" where
  "speed rt method maxSize w =
     (let w1 = set_seed rt 123456 w; w2 = gc_disable w1 in
      case speed_loop rt method maxSize 50 0 w2 of
        None \<Rightarrow> None
      | Some (Inl e, w3) \<Rightarrow> Some (Inl e, w3)
      | Some (Inr u, w3) \<Rightarrow> Some (Inr (), gc_enable w3))"

subsection \<open>Notions for the properties of a sweep\<close>

text \<open>The sizes of a sweep: from \<open>n\<close> on, doubling while at most \<open>maxSize\<close>.\<close>

function series :: "int \<Rightarrow> int \<Rightarrow> int list" where
  "series n maxSize = (if 0 < n \<and> n \<le> maxSize then n # series (n * 2) maxSize else [])"
  by pat_completeness auto
termination
  by (relation "measure (\<lambda>(n, maxSize). nat (maxSize + 1 - n))") auto

declare series.simps [simp del]

text \<open>
  A trial that completes is an instance and two timer readings; its effects are the
  collector switched off by \<^verbatim>\<open>timeit\<close>, the generation, the first reading, the call,
  the second reading. A trial in which the solver raises ends with the call.
\<close>

type_synonym trial = "problem \<times> real \<times> real"

definition trial_events :: "trial \<Rightarrow> event list" where
  "trial_events tr =
     (case tr of (p, t0, t1) \<Rightarrow> [GcDisable, Generate p, Timer t0, Call p False, Timer t1])"

definition failed_events :: "problem \<Rightarrow> real \<Rightarrow> event list" where
  "failed_events p t0 = [GcDisable, Generate p, Timer t0, Call p False]"

definition duration :: "trial \<Rightarrow> real" where
  "duration tr = (case tr of (p, t0, t1) \<Rightarrow> t1 - t0)"

text \<open>
  A trial of size \<open>n\<close> as the driver runs it: a dense instance of that size, on which the
  solver returns, between two successive readings of the clock.
\<close>

definition good_trial :: "'g runtime \<Rightarrow> (problem \<Rightarrow> 'e + 'r) \<Rightarrow> int \<Rightarrow> trial \<Rightarrow> bool" where
  "good_trial rt method n tr =
     (case tr of (p, t0, t1) \<Rightarrow>
        dense (fst p) (nat n) \<and> length (snd p) = nat n \<and> (\<exists>x. method p = Inr x) \<and>
        (\<exists>i. t0 = process_time rt i \<and> t1 = process_time rt (Suc i)))"

text \<open>The instances that successive calls of \<^verbatim>\<open>randProb\<close> give for a list of sizes.\<close>

fun gen_many :: "('g \<Rightarrow> real \<times> 'g) \<Rightarrow> int list \<Rightarrow> 'g \<Rightarrow> problem list \<times> 'g" where
  "gen_many rnd [] g = ([], g)"
| "gen_many rnd (n # ns) g =
     (case randProb rnd n g of
        (Inl e, g1) \<Rightarrow> ([], g1)
      | (Inr p, g1) \<Rightarrow> (case gen_many rnd ns g1 of (ps, g2) \<Rightarrow> (p # ps, g2)))"

text \<open>
  The effects of one size: the collection, the trials, the report; and of a sequence of
  sizes, each with the mean of the size before it.
\<close>

definition report_of :: "int \<Rightarrow> real \<Rightarrow> trial list \<Rightarrow> report" where
  "report_of n prev trials =
     \<lparr>rep_size = n, rep_mean = mean (map duration trials),
      rep_stdev = stdev (map duration trials),
      rep_ratio = (if prev > 0 then Some (mean (map duration trials) / prev) else None)\<rparr>"

definition block_events :: "int \<Rightarrow> real \<Rightarrow> trial list \<Rightarrow> event list" where
  "block_events n prev trials =
     GcCollect # concat (map trial_events trials) @ [Print (report_of n prev trials)]"

fun run_events :: "int list \<Rightarrow> real \<Rightarrow> trial list list \<Rightarrow> event list" where
  "run_events (n # ns) prev (b # bs) =
     block_events n prev b @ run_events ns (mean (map duration b)) bs"
| "run_events ns prev bs = []"

definition good_blocks ::
  "'g runtime \<Rightarrow> (problem \<Rightarrow> 'e + 'r) \<Rightarrow> int list \<Rightarrow> trial list list \<Rightarrow> bool" where
  "good_blocks rt method ns bs =
     list_all2 (\<lambda>n b. length b = 5 \<and> list_all (good_trial rt method n) b) ns bs"

text \<open>Readings of a trace: the reports, the instances generated, the calls.\<close>

fun printed :: "event list \<Rightarrow> report list" where
  "printed [] = []"
| "printed (Print r # es) = r # printed es"
| "printed (e # es) = printed es"

fun generated :: "event list \<Rightarrow> problem list" where
  "generated [] = []"
| "generated (Generate p # es) = p # generated es"
| "generated (e # es) = generated es"

fun called :: "event list \<Rightarrow> (problem \<times> bool) list" where
  "called [] = []"
| "called (Call p g # es) = (p, g) # called es"
| "called (e # es) = called es"

text \<open>The ratios the reports carry, from the sequence of their means.\<close>

fun ratios :: "real \<Rightarrow> real list \<Rightarrow> real option list" where
  "ratios prev [] = []"
| "ratios prev (m # ms) = (if prev > 0 then Some (m / prev) else None) # ratios m ms"

text \<open>Every call stands directly between two readings of the timer.\<close>

fun timed_calls :: "event list \<Rightarrow> bool" where
  "timed_calls [] = True"
| "timed_calls (Timer a # Call p g # Timer b # es) = timed_calls es"
| "timed_calls (Call p g # es) = False"
| "timed_calls (e # es) = timed_calls es"

text \<open>
  Every call comes after a collection made since the last report (the flag says whether
  one has been made).
\<close>

fun collected_per_size :: "bool \<Rightarrow> event list \<Rightarrow> bool" where
  "collected_per_size f [] = True"
| "collected_per_size f (GcCollect # es) = collected_per_size True es"
| "collected_per_size f (Print r # es) = collected_per_size False es"
| "collected_per_size f (Call p g # es) = (f \<and> collected_per_size f es)"
| "collected_per_size f (e # es) = collected_per_size f es"

subsection \<open>Concrete inputs\<close>

text \<open>The swap matrix of the specification's example, the identity, and a store.\<close>

definition A01 :: matrix where
  "A01 = [(0, 0) \<mapsto> 0, (0, 1) \<mapsto> 1, (1, 0) \<mapsto> 1, (1, 1) \<mapsto> 0]"

definition I2 :: matrix where
  "I2 = [(0, 0) \<mapsto> 1, (0, 1) \<mapsto> 0, (1, 0) \<mapsto> 0, (1, 1) \<mapsto> 1]"

definition heap0 :: heap where
  "heap0 = [Dict I2, List [3, 4]]"

text \<open>
  A small generator, a runtime whose clock is too coarse to tell two readings apart, two
  states of the process, and three solvers: two that always return and one that always
  raises.
\<close>

definition lcg :: "nat \<Rightarrow> real \<times> nat" where
  "lcg g = (real (g mod 10) / 10, (7 * g + 3) mod 101)"

definition coarse_rt :: "nat runtime" where
  "coarse_rt = \<lparr>random = lcg, seed = nat, process_time = (\<lambda>k. 0)\<rparr>"

definition world0 :: "nat world" where
  "world0 = \<lparr>rng = 0, gc_enabled = True, ticks = 0, trace = []\<rparr>"

definition world1 :: "nat world" where
  "world1 = \<lparr>rng = 42, gc_enabled = False, ticks = 3, trace = []\<rparr>"

definition m_ok :: "problem \<Rightarrow> unit + unit" where
  "m_ok p = Inr ()"

definition m_copy :: "problem \<Rightarrow> unit + real list" where
  "m_copy p = Inr (snd p)"

definition m_fail :: "problem \<Rightarrow> unit + unit" where
  "m_fail p = Inl ()"

section \<open>Properties of the solver\<close>

lemma dense_checks:
  "dense A n \<Longrightarrow> card (dom A) = n * n \<and> (\<forall>i \<in> set [0..<n]. \<forall>j \<in> set [0..<n]. (i, j) \<in> dom A)"
  by (simp add: dense_def)

lemma checks_dense:
  assumes "finite (dom A)" "card (dom A) = n * n"
    and "\<forall>i \<in> set [0..<n]. \<forall>j \<in> set [0..<n]. (i, j) \<in> dom A"
  shows "dense A n"
proof -
  have sub: "{..<n} \<times> {..<n} \<subseteq> dom A"
    using assms(3) by (auto simp: dom_def)
  have "card ({..<n} \<times> {..<n}) = card (dom A)"
    by (simp add: assms(2))
  with sub assms(1) have "{..<n} \<times> {..<n} = dom A"
    by (intro card_subset_eq) auto
  then show ?thesis
    by (simp add: dense_def)
qed

lemma gaussSimple_dense_passes:
  assumes "dense A (length b)"
  shows "gaussSimple A b \<noteq> Inl (AssertionError Matrix_wrong_size) \<and>
         gaussSimple A b \<noteq> Inl (AssertionError Sparse_matrix)"
proof -
  from dense_checks [OF assms]
  have c: "card (dom A) = length b * length b"
    and k: "\<forall>i \<in> set [0..<length b]. \<forall>j \<in> set [0..<length b]. (i, j) \<in> dom A"
    by blast+
  let ?rs = "residuals A b b [0..<length b]"
  have "py_max ?rs = Inl ValueError \<or> (\<exists>err. py_max ?rs = Inr err)"
    by (cases ?rs) simp_all
  then show ?thesis
  proof
    assume e: "py_max ?rs = Inl ValueError"
    show ?thesis
      unfolding gaussSimple_def Let_def e using c k by simp
  next
    assume "\<exists>err. py_max ?rs = Inr err"
    then obtain err where e: "py_max ?rs = Inr err"
      by blast
    show ?thesis
      unfolding gaussSimple_def Let_def e using c k by simp
  qed
qed

lemma gaussSimple_I2: "gaussSimple I2 [3, 4] = Inr [3, 4]"
proof -
  have "card (dom I2) = 4"
    by (simp add: I2_def)
  then show ?thesis
    by (simp add: gaussSimple_def Let_def residuals_def upt_rec I2_def)
qed

text \<open>
  Claim C2 (the code at the failing input). The matrix of the specification's example has
  a zero first pivot. \<open>gaussSimple\<close> does no elimination: it passes both input
  assertions, finds the residual of the copy of \<open>b\<close> to be zero, and returns \<open>[1, 1]\<close>;
  it neither fails nor returns the empty list that its own comment asks for. Every value
  met in this run is 0 or 1, so the arithmetic of the program is exact here.
\<close>

theorem gaussSimple_zero_pivot_returns:
  "A01 (0, 0) = Some 0 \<and> gaussSimple A01 [1, 1] = Inr [1, 1]"
proof -
  have "card (dom A01) = 4"
    by (simp add: A01_def)
  then show ?thesis
    by (simp add: gaussSimple_def Let_def residuals_def upt_rec A01_def)
qed

theorem gaussSimple_zero_pivot_returns_witness:
  "gaussSimple A01 [1, 1] \<noteq> Inr [] \<and>
   gaussSimple A01 [1, 1] \<noteq> Inl (AssertionError (Incorrect_solution 1))"
  using gaussSimple_zero_pivot_returns by simp

text \<open>
  Claim C7. When the keys of the (finite) dictionary \<open>A\<close> are not exactly the index pairs
  of an \<open>n\<close> by \<open>n\<close> matrix, \<open>n\<close> the length of \<open>b\<close>, the call fails with an assertion
  error that reaches the caller: "wrong size" when the number of keys is not \<open>n\<^sup>2\<close>,
  "sparse matrix" when the number is right and an index pair is missing.
\<close>

theorem gaussSimple_dimension_error:
  assumes "finite (dom A)" and "\<not> dense A (length b)"
  shows "(card (dom A) \<noteq> length b * length b \<longrightarrow>
            gaussSimple A b = Inl (AssertionError Matrix_wrong_size)) \<and>
         (card (dom A) = length b * length b \<longrightarrow>
            gaussSimple A b = Inl (AssertionError Sparse_matrix))"
proof (intro conjI impI)
  assume "card (dom A) \<noteq> length b * length b"
  then show "gaussSimple A b = Inl (AssertionError Matrix_wrong_size)"
    by (simp add: gaussSimple_def)
next
  assume c: "card (dom A) = length b * length b"
  have "\<not> (\<forall>i \<in> set [0..<length b]. \<forall>j \<in> set [0..<length b]. (i, j) \<in> dom A)"
    using checks_dense [OF assms(1) c] assms(2) by blast
  with c show "gaussSimple A b = Inl (AssertionError Sparse_matrix)"
    by (simp add: gaussSimple_def Let_def)
qed

theorem gaussSimple_dimension_error_witness:
  "finite (dom A01) \<and> \<not> dense A01 (length [1, 2, 3 :: real]) \<and>
   gaussSimple A01 [1, 2, 3] = Inl (AssertionError Matrix_wrong_size)"
proof -
  have f: "finite (dom A01)"
    by (simp add: A01_def)
  have c: "card (dom A01) = 4"
    by (simp add: A01_def)
  have nd: "\<not> dense A01 (length [1, 2, 3 :: real])"
  proof
    assume "dense A01 (length [1, 2, 3 :: real])"
    from dense_checks [OF this] c show False by simp
  qed
  have c': "card (dom A01) \<noteq> length [1, 2, 3 :: real] * length [1, 2, 3 :: real]"
    using c by simp
  from gaussSimple_dimension_error [OF f nd] c' f nd show ?thesis
    by blast
qed

section \<open>The store: inputs are not modified\<close>

lemma deref_append: "deref h r = Some obj \<Longrightarrow> deref (h @ h') r = Some obj"
  by (auto simp: deref_def nth_append split: if_splits)

lemma gaussSimple_h_eq:
  assumes "deref h A = Some (Dict Av)" and "deref h b = Some (List bv)"
  shows "gaussSimple_h A b h =
     Some (if card (dom Av) \<noteq> length bv * length bv \<or>
              \<not> (\<forall>i \<in> set [0..<length bv]. \<forall>j \<in> set [0..<length bv]. (i, j) \<in> dom Av)
           then (case gaussSimple Av bv of Inl e \<Rightarrow> Inl e | Inr x \<Rightarrow> Inr 0, h)
           else (case gaussSimple Av bv of Inl e \<Rightarrow> Inl e | Inr x \<Rightarrow> Inr (Suc (length h)),
                 h @ [Dict Av, List bv]))"
proof -
  let ?h2 = "h @ [Dict Av, List bv]"
  have a: "deref ?h2 A = Some (Dict Av)" and b: "deref ?h2 b = Some (List bv)"
    using assms by (simp_all add: deref_append)
  have x: "deref ?h2 (Suc (length h)) = Some (List bv)"
    by (simp add: deref_def nth_append)
  show ?thesis
    using a b x
    by (simp add: gaussSimple_h_def gaussSimple_def assms alloc_def Let_def split: sum.splits)
qed

lemma gaussSimple_h_run:
  assumes "deref h A = Some (Dict Av)" and "deref h b = Some (List bv)"
  shows "\<exists>r h'. gaussSimple_h A b h = Some (r, h') \<and>
           (\<exists>ext. h' = h @ ext) \<and>
           outcome h' r = (case gaussSimple Av bv of Inl e \<Rightarrow> Inl e | Inr x \<Rightarrow> Inr (Some (List x))) \<and>
           (\<forall>x. r = Inr x \<longrightarrow> length h \<le> x)"
proof -
  have copy: "gaussSimple Av bv = Inr x \<Longrightarrow> x = bv" for x
    by (auto simp: gaussSimple_def Let_def split: if_splits sum.splits)
  have chk: "gaussSimple Av bv = Inr x \<Longrightarrow>
      \<not> (card (dom Av) \<noteq> length bv * length bv \<or>
         \<not> (\<forall>i \<in> set [0..<length bv]. \<forall>j \<in> set [0..<length bv]. (i, j) \<in> dom Av))" for x
    by (auto simp: gaussSimple_def Let_def split: if_splits sum.splits)
  show ?thesis
  proof (cases "gaussSimple Av bv")
    case (Inl e)
    then show ?thesis
      unfolding gaussSimple_h_eq [OF assms]
      by (auto simp: outcome_def)
  next
    case (Inr x)
    from copy [OF Inr] chk [OF Inr] Inr show ?thesis
      unfolding gaussSimple_h_eq [OF assms]
      by (auto simp: outcome_def deref_def nth_append)
  qed
qed

text \<open>
  Claim C3. A call of \<open>gaussSimple\<close> on a dictionary and a list of the store leaves
  every object the store held as it was, the caller's \<open>A\<close> and \<open>b\<close> among them: it only
  allocates its copies, and a list it returns is a new object. Its outcome is that of the
  function on the values of \<open>A\<close> and \<open>b\<close>, and a second call on the same references gives
  the same outcome and leaves \<open>A\<close> and \<open>b\<close> unchanged again.
\<close>

theorem gaussSimple_inputs_unchanged:
  assumes "deref h A = Some (Dict Av)" and "deref h b = Some (List bv)"
  shows "\<exists>r h'. gaussSimple_h A b h = Some (r, h') \<and>
           (\<forall>p < length h. deref h' p = deref h p) \<and>
           deref h' A = Some (Dict Av) \<and> deref h' b = Some (List bv) \<and>
           (\<forall>x. r = Inr x \<longrightarrow> length h \<le> x \<and> x \<noteq> A \<and> x \<noteq> b) \<and>
           outcome h' r = (case gaussSimple Av bv of Inl e \<Rightarrow> Inl e | Inr x \<Rightarrow> Inr (Some (List x))) \<and>
           (\<exists>r2 h2. gaussSimple_h A b h' = Some (r2, h2) \<and> outcome h2 r2 = outcome h' r \<and>
              deref h2 A = Some (Dict Av) \<and> deref h2 b = Some (List bv))"
proof -
  from gaussSimple_h_run [OF assms] obtain r h' ext
    where r: "gaussSimple_h A b h = Some (r, h')" and h': "h' = h @ ext"
      and o: "outcome h' r = (case gaussSimple Av bv of Inl e \<Rightarrow> Inl e | Inr x \<Rightarrow> Inr (Some (List x)))"
      and f: "\<forall>x. r = Inr x \<longrightarrow> length h \<le> x"
    by blast
  have a': "deref h' A = Some (Dict Av)" and b': "deref h' b = Some (List bv)"
    using assms by (simp_all add: h' deref_append)
  have same: "\<forall>p < length h. deref h' p = deref h p"
    by (simp add: h' deref_def nth_append)
  from assms have "A < length h" "b < length h"
    by (auto simp: deref_def split: if_splits)
  with f have fresh: "\<forall>x. r = Inr x \<longrightarrow> length h \<le> x \<and> x \<noteq> A \<and> x \<noteq> b"
    by auto
  from gaussSimple_h_run [OF a' b'] obtain r2 h2 ext2
    where r2: "gaussSimple_h A b h' = Some (r2, h2)" and h2: "h2 = h' @ ext2"
      and o2: "outcome h2 r2 = (case gaussSimple Av bv of Inl e \<Rightarrow> Inl e | Inr x \<Rightarrow> Inr (Some (List x)))"
    by blast
  have a2: "deref h2 A = Some (Dict Av)" and b2: "deref h2 b = Some (List bv)"
    using a' b' by (simp_all add: h2 deref_append)
  from o o2 have oo: "outcome h2 r2 = outcome h' r"
    by simp
  have again: "\<exists>r2 h2. gaussSimple_h A b h' = Some (r2, h2) \<and> outcome h2 r2 = outcome h' r \<and>
              deref h2 A = Some (Dict Av) \<and> deref h2 b = Some (List bv)"
    using r2 oo a2 b2 by blast
  show ?thesis
    apply (rule exI [of _ r])
    apply (rule exI [of _ h'])
    apply (intro conjI)
          apply (rule r same a' b' fresh o again)+
    done
qed

theorem gaussSimple_inputs_unchanged_witness:
  "deref heap0 0 = Some (Dict I2) \<and> deref heap0 1 = Some (List [3, 4]) \<and>
   (\<exists>r h'. gaussSimple_h 0 1 heap0 = Some (r, h') \<and>
      deref h' 0 = Some (Dict I2) \<and> deref h' 1 = Some (List [3, 4]) \<and>
      outcome h' r = Inr (Some (List [3, 4])) \<and>
      (\<exists>r2 h2. gaussSimple_h 0 1 h' = Some (r2, h2) \<and> outcome h2 r2 = outcome h' r))"
proof -
  have a: "deref heap0 0 = Some (Dict I2)" and b: "deref heap0 1 = Some (List [3, 4])"
    by (simp_all add: heap0_def deref_def)
  from gaussSimple_inputs_unchanged [OF a b] obtain r h'
    where "gaussSimple_h 0 1 heap0 = Some (r, h')"
      "deref h' 0 = Some (Dict I2)" "deref h' 1 = Some (List [3, 4])"
      "outcome h' r = (case gaussSimple I2 [3, 4] of Inl e \<Rightarrow> Inl e | Inr x \<Rightarrow> Inr (Some (List x)))"
      "\<exists>r2 h2. gaussSimple_h 0 1 h' = Some (r2, h2) \<and> outcome h2 r2 = outcome h' r \<and>
         deref h2 0 = Some (Dict I2) \<and> deref h2 1 = Some (List [3, 4])"
    by blast
  then show ?thesis
    using a b by (auto simp: gaussSimple_I2)
qed

section \<open>Properties of the generator\<close>

lemma draw_each_keys: "map fst (fst (draw_each rnd ks g)) = ks"
proof (induction ks arbitrary: g)
  case Nil
  show ?case by simp
next
  case (Cons k ks)
  obtain v g1 where v: "rnd g = (v, g1)"
    by (cases "rnd g")
  obtain ps g2 where ps: "draw_each rnd ks g1 = (ps, g2)"
    by (cases "draw_each rnd ks g1")
  from Cons.IH [of g1] ps have "map fst ps = ks"
    by simp
  then show ?case
    by (simp add: v ps)
qed

lemma dom_foldl_update:
  "dom (foldl (\<lambda>m (k, v). m(k \<mapsto> v)) m0 ps) = dom m0 \<union> fst ` set ps"
  by (induction ps arbitrary: m0) (auto split: prod.splits)

lemma dom_dict: "dom (dict ps) = set (map fst ps)"
  by (simp add: dict_def dom_foldl_update)

lemma set_index_pairs:
  "set (concat (map (\<lambda>i. map (\<lambda>j. (i, j)) [0..<m]) [0..<m])) = {..<m} \<times> {..<m}"
  by auto

lemma randProb_positive:
  assumes "0 < n"
  shows "\<exists>A b g'. randProb rnd n g = (Inr (A, b), g') \<and> dense A (nat n) \<and> length b = nat n"
proof -
  let ?N = "[0..<nat n]"
  let ?keys = "concat (map (\<lambda>i. map (\<lambda>j. (i, j)) ?N) ?N)"
  obtain ps g1 where ps: "draw_each rnd ?keys g = (ps, g1)"
    by (cases "draw_each rnd ?keys g")
  obtain qs g2 where qs: "draw_each rnd ?N g1 = (qs, g2)"
    by (cases "draw_each rnd ?N g1")
  have keys: "map fst ps = ?keys"
    using draw_each_keys [of rnd ?keys g] by (simp add: ps)
  have idx: "map fst qs = ?N"
    using draw_each_keys [of rnd ?N g1] by (simp add: qs)
  have "dom (dict ps) = {..<nat n} \<times> {..<nat n}"
    unfolding dom_dict keys by (rule set_index_pairs)
  then have d: "dense (dict ps) (nat n)"
    by (simp add: dense_def)
  have "length (map fst qs) = nat n"
    unfolding idx by simp
  then have l: "length (map snd qs) = nat n"
    by simp
  have "randProb rnd n g = (Inr (dict ps, map snd qs), g2)"
    using assms by (simp add: randProb_def Let_def ps qs)
  with d l show ?thesis
    by blast
qed

lemma randProb_not_positive:
  "\<not> 0 < n \<Longrightarrow> randProb rnd n g = (Inl (AssertionError Size_not_positive), g)"
  by (simp add: randProb_def)

text \<open>
  Claim C10. For \<open>n > 0\<close>, \<open>randProb\<close> returns a dictionary whose keys are exactly the
  \<open>n\<^sup>2\<close> index pairs below \<open>n\<close> and a list of length \<open>n\<close>, an instance that passes both
  input assertions of \<open>gaussSimple\<close>; for \<open>n \<le> 0\<close> it fails its own assertion and leaves
  the generator as it was.
\<close>

theorem randProb_dense:
  "(0 < n \<longrightarrow>
      (\<exists>A b g'. randProb rnd n g = (Inr (A, b), g') \<and>
         dom A = {..<nat n} \<times> {..<nat n} \<and> card (dom A) = nat n * nat n \<and>
         length b = nat n \<and>
         gaussSimple A b \<noteq> Inl (AssertionError Matrix_wrong_size) \<and>
         gaussSimple A b \<noteq> Inl (AssertionError Sparse_matrix))) \<and>
   (n \<le> 0 \<longrightarrow> randProb rnd n g = (Inl (AssertionError Size_not_positive), g))"
proof (intro conjI impI)
  assume pos: "0 < n"
  from randProb_positive [OF pos, of rnd g] obtain A b g'
    where r: "randProb rnd n g = (Inr (A, b), g')"
      and d: "dense A (nat n)" and l: "length b = nat n"
    by blast
  from pos l have ne: "b \<noteq> []"
    by auto
  from d l have d': "dense A (length b)"
    by simp
  have g: "gaussSimple A b \<noteq> Inl (AssertionError Matrix_wrong_size) \<and>
       gaussSimple A b \<noteq> Inl (AssertionError Sparse_matrix)"
    by (rule gaussSimple_dense_passes [OF d'])
  from d have "dom A = {..<nat n} \<times> {..<nat n}" "card (dom A) = nat n * nat n"
    by (simp_all add: dense_def)
  with r l g show "\<exists>A b g'. randProb rnd n g = (Inr (A, b), g') \<and>
         dom A = {..<nat n} \<times> {..<nat n} \<and> card (dom A) = nat n * nat n \<and>
         length b = nat n \<and>
         gaussSimple A b \<noteq> Inl (AssertionError Matrix_wrong_size) \<and>
         gaussSimple A b \<noteq> Inl (AssertionError Sparse_matrix)"
    by blast
next
  assume "n \<le> 0"
  then show "randProb rnd n g = (Inl (AssertionError Size_not_positive), g)"
    by (simp add: randProb_not_positive)
qed

theorem randProb_dense_witness:
  "(\<exists>A b g'. randProb lcg 2 (0::nat) = (Inr (A, b), g') \<and>
         dom A = {..<2} \<times> {..<2} \<and> card (dom A) = 4 \<and> length b = 2 \<and>
         gaussSimple A b \<noteq> Inl (AssertionError Matrix_wrong_size) \<and>
         gaussSimple A b \<noteq> Inl (AssertionError Sparse_matrix)) \<and>
   randProb lcg (- 1) (0::nat) = (Inl (AssertionError Size_not_positive), 0)"
  using randProb_dense [of 2 lcg 0] randProb_dense [of "- 1" lcg 0]
  by simp

section \<open>Properties of the driver\<close>

subsection \<open>One trial, one size, the loop\<close>

lemma timeit_unfold:
  assumes "randProb (random rt) n (rng w) = (Inr p, g')" and "gc_enabled w = False"
  shows "timeit rt m n w =
     (case m p of
        Inl e \<Rightarrow>
          (Inl (Solver e),
           w\<lparr>rng := g', ticks := Suc (ticks w),
             trace := trace w @ failed_events p (process_time rt (ticks w))\<rparr>)
      | Inr x \<Rightarrow>
          (Inr (process_time rt (Suc (ticks w)) - process_time rt (ticks w)),
           w\<lparr>rng := g', ticks := Suc (Suc (ticks w)),
             trace := trace w @
               trial_events (p, process_time rt (ticks w), process_time rt (Suc (ticks w)))\<rparr>))"
  using assms
  by (cases "m p")
    (simp_all add: timeit_def inner_def randP_def timer_def gc_disable_def emit_def Let_def
      failed_events_def trial_events_def)

lemma timeit_ok:
  assumes "0 < n" and "gc_enabled w = False" and "timeit rt m n w = (Inr t, w')"
  shows "\<exists>tr g'. good_trial rt m n tr \<and> t = duration tr \<and>
           randProb (random rt) n (rng w) = (Inr (fst tr), g') \<and> rng w' = g' \<and>
           trace w' = trace w @ trial_events tr \<and> gc_enabled w' = False"
proof -
  from randProb_positive [OF assms(1), of "random rt" "rng w"] obtain A b g'
    where r: "randProb (random rt) n (rng w) = (Inr (A, b), g')"
      and d: "dense A (nat n)" and l: "length b = nat n"
    by blast
  let ?t0 = "process_time rt (ticks w)"
  let ?t1 = "process_time rt (Suc (ticks w))"
  let ?tr = "((A, b), ?t0, ?t1)"
  from assms(3) timeit_unfold [OF r assms(2), of m] obtain x where x: "m (A, b) = Inr x"
    by (cases "m (A, b)") auto
  with assms(3) timeit_unfold [OF r assms(2), of m]
  have t: "t = ?t1 - ?t0"
    and w': "w' = w\<lparr>rng := g', ticks := Suc (Suc (ticks w)), trace := trace w @ trial_events ?tr\<rparr>"
    by simp_all
  have "good_trial rt m n ?tr"
    using d l x by (auto simp: good_trial_def)
  moreover have "t = duration ?tr"
    by (simp add: t duration_def)
  ultimately show ?thesis
    using r w' assms(2) by (intro exI [of _ ?tr] exI [of _ g']) simp
qed

lemma timeit_raised:
  assumes "0 < n" and "gc_enabled w = False" and "timeit rt m n w = (Inl x, w')"
  shows "\<exists>p t0 e. x = Solver e \<and> m p = Inl e \<and> length (snd p) = nat n \<and>
           trace w' = trace w @ failed_events p t0 \<and> gc_enabled w' = False"
proof -
  from randProb_positive [OF assms(1), of "random rt" "rng w"] obtain A b g'
    where r: "randProb (random rt) n (rng w) = (Inr (A, b), g')"
      and l: "length b = nat n"
    by blast
  from assms(3) timeit_unfold [OF r assms(2), of m] obtain e where e: "m (A, b) = Inl e"
    by (cases "m (A, b)") auto
  with assms(3) timeit_unfold [OF r assms(2), of m]
  have "x = Solver e"
    and "w' = w\<lparr>rng := g', ticks := Suc (ticks w),
                 trace := trace w @ failed_events (A, b) (process_time rt (ticks w))\<rparr>"
    by simp_all
  with e l assms(2) show ?thesis
    by (intro exI [of _ "(A, b)"] exI [of _ "process_time rt (ticks w)"] exI [of _ e]) simp
qed

lemma repeat_ok:
  assumes "0 < n" and "gc_enabled w = False" and "repeat rt m n k w = (Inr ts, w')"
  shows "\<exists>trials. length trials = k \<and> list_all (good_trial rt m n) trials \<and>
           ts = map duration trials \<and>
           trace w' = trace w @ concat (map trial_events trials) \<and>
           gc_enabled w' = False \<and>
           gen_many (random rt) (replicate k n) (rng w) = (map fst trials, rng w')"
  using assms(2,3)
proof (induction k arbitrary: w ts w')
  case 0
  then show ?case by simp
next
  case (Suc k)
  obtain r1 w1 where t1: "timeit rt m n w = (r1, w1)"
    by (cases "timeit rt m n w")
  with Suc.prems(2) obtain t where r1: "r1 = Inr t"
    by (cases r1) auto
  obtain r2 w2 where t2: "repeat rt m n k w1 = (r2, w2)"
    by (cases "repeat rt m n k w1")
  with Suc.prems(2) t1 r1 obtain ts' where r2: "r2 = Inr ts'"
    by (cases r2) auto
  from Suc.prems(2) t1 r1 t2 r2 have ts: "ts = t # ts'" and w': "w' = w2"
    by simp_all
  from timeit_ok [OF assms(1) Suc.prems(1) t1 [unfolded r1]] obtain tr g'
    where tr: "good_trial rt m n tr" "t = duration tr"
      "randProb (random rt) n (rng w) = (Inr (fst tr), g')" "rng w1 = g'"
      "trace w1 = trace w @ trial_events tr" "gc_enabled w1 = False"
    by blast
  from Suc.IH [OF tr(6) t2 [unfolded r2]] obtain trials
    where trials: "length trials = k" "list_all (good_trial rt m n) trials"
      "ts' = map duration trials"
      "trace w2 = trace w1 @ concat (map trial_events trials)"
      "gc_enabled w2 = False"
      "gen_many (random rt) (replicate k n) (rng w1) = (map fst trials, rng w2)"
    by blast
  show ?case
    using tr trials ts w'
    by (intro exI [of _ "tr # trials"]) simp
qed

lemma repeat_raised:
  assumes "0 < n" and "gc_enabled w = False" and "repeat rt m n k w = (Inl x, w')"
  shows "\<exists>trials p t0 e. length trials < k \<and> list_all (good_trial rt m n) trials \<and>
           x = Solver e \<and> m p = Inl e \<and> length (snd p) = nat n \<and>
           trace w' = trace w @ concat (map trial_events trials) @ failed_events p t0 \<and>
           gc_enabled w' = False"
  using assms(2,3)
proof (induction k arbitrary: w w')
  case 0
  then show ?case by simp
next
  case (Suc k)
  obtain r1 w1 where t1: "timeit rt m n w = (r1, w1)"
    by (cases "timeit rt m n w")
  show ?case
  proof (cases r1)
    case (Inl y)
    with Suc.prems(2) t1 have "y = x" "w1 = w'"
      by simp_all
    with timeit_raised [OF assms(1) Suc.prems(1) t1 [unfolded Inl]] obtain p t0 e
      where "x = Solver e" "m p = Inl e" "length (snd p) = nat n"
        "trace w' = trace w @ failed_events p t0" "gc_enabled w' = False"
      by blast
    then show ?thesis
      by (intro exI [of _ "[]"] exI [of _ p] exI [of _ t0] exI [of _ e]) simp
  next
    case (Inr t)
    obtain r2 w2 where t2: "repeat rt m n k w1 = (r2, w2)"
      by (cases "repeat rt m n k w1")
    with Suc.prems(2) t1 Inr have r2: "r2 = Inl x" and w': "w' = w2"
      by (cases r2; simp)+
    from timeit_ok [OF assms(1) Suc.prems(1) t1 [unfolded Inr]] obtain tr
      where tr: "good_trial rt m n tr" "trace w1 = trace w @ trial_events tr"
        "gc_enabled w1 = False"
      by blast
    from Suc.IH [OF tr(3) t2 [unfolded r2]] obtain trials p t0 e
      where "length trials < k" "list_all (good_trial rt m n) trials"
        "x = Solver e" "m p = Inl e" "length (snd p) = nat n"
        "trace w2 = trace w1 @ concat (map trial_events trials) @ failed_events p t0"
        "gc_enabled w2 = False"
      by blast
    with tr w' show ?thesis
      by (intro exI [of _ "tr # trials"] exI [of _ p] exI [of _ t0] exI [of _ e]) simp
  qed
qed

lemma size_step_ok:
  assumes "0 < n" and "gc_enabled w = False" and "size_step rt m n prev w = (Inr mu, w')"
  shows "\<exists>trials. length trials = 5 \<and> list_all (good_trial rt m n) trials \<and>
           mu = mean (map duration trials) \<and>
           trace w' = trace w @ block_events n prev trials \<and>
           gc_enabled w' = False \<and>
           gen_many (random rt) (replicate 5 n) (rng w) = (map fst trials, rng w')"
proof -
  let ?w1 = "gc_collect w"
  have w1: "gc_enabled ?w1 = False" "trace ?w1 = trace w @ [GcCollect]" "rng ?w1 = rng w"
    using assms(2) by (simp_all add: gc_collect_def emit_def)
  obtain r w2 where rep: "repeat rt m n 5 ?w1 = (r, w2)"
    by (cases "repeat rt m n 5 ?w1")
  with assms(3) obtain ts where r: "r = Inr ts"
    by (cases r) (auto simp: size_step_def Let_def)
  from assms(3) rep r have mu: "mu = mean ts"
    and w': "w' = emit (Print \<lparr>rep_size = n, rep_mean = mean ts, rep_stdev = stdev ts,
                        rep_ratio = (if prev > 0 then Some (mean ts / prev) else None)\<rparr>) w2"
    by (auto simp: size_step_def Let_def)
  from repeat_ok [OF assms(1) w1(1) rep [unfolded r]] obtain trials
    where trials: "length trials = 5" "list_all (good_trial rt m n) trials"
      "ts = map duration trials"
      "trace w2 = trace ?w1 @ concat (map trial_events trials)"
      "gc_enabled w2 = False"
      "gen_many (random rt) (replicate 5 n) (rng ?w1) = (map fst trials, rng w2)"
    by blast
  show ?thesis
    using trials w1 mu w'
    by (intro exI [of _ trials]) (simp add: emit_def block_events_def report_of_def)
qed

lemma size_step_raised:
  assumes "0 < n" and "gc_enabled w = False" and "size_step rt m n prev w = (Inl x, w')"
  shows "\<exists>trials p t0 e. length trials < 5 \<and> list_all (good_trial rt m n) trials \<and>
           x = Solver e \<and> m p = Inl e \<and> length (snd p) = nat n \<and>
           trace w' = trace w @ GcCollect # concat (map trial_events trials) @ failed_events p t0 \<and>
           gc_enabled w' = False"
proof -
  let ?w1 = "gc_collect w"
  have w1: "gc_enabled ?w1 = False" "trace ?w1 = trace w @ [GcCollect]"
    using assms(2) by (simp_all add: gc_collect_def emit_def)
  obtain r w2 where rep: "repeat rt m n 5 ?w1 = (r, w2)"
    by (cases "repeat rt m n 5 ?w1")
  with assms(3) have r: "r = Inl x" and w': "w' = w2"
    by (cases r; simp add: size_step_def Let_def)+
  from repeat_raised [OF assms(1) w1(1) rep [unfolded r]] obtain trials p t0 e
    where "length trials < 5" "list_all (good_trial rt m n) trials"
      "x = Solver e" "m p = Inl e" "length (snd p) = nat n"
      "trace w2 = trace ?w1 @ concat (map trial_events trials) @ failed_events p t0"
      "gc_enabled w2 = False"
    by blast
  with w1 w' show ?thesis
    by (intro exI [of _ trials] exI [of _ p] exI [of _ t0] exI [of _ e]) simp
qed

lemma gen_many_append:
  assumes "gen_many rnd xs g = (ps, g1)" and "length ps = length xs"
    and "gen_many rnd ys g1 = (qs, g2)"
  shows "gen_many rnd (xs @ ys) g = (ps @ qs, g2)"
  using assms(1,2)
proof (induction xs arbitrary: g ps)
  case Nil
  with assms(3) show ?case by simp
next
  case (Cons x xs)
  obtain r g' where r: "randProb rnd x g = (r, g')"
    by (cases "randProb rnd x g")
  show ?case
  proof (cases r)
    case (Inl e)
    with Cons.prems r show ?thesis by simp
  next
    case (Inr p)
    obtain ps' g'' where rest: "gen_many rnd xs g' = (ps', g'')"
      by (cases "gen_many rnd xs g'")
    with Cons.prems r Inr have ps: "ps = p # ps'" and g1: "g1 = g''"
      by simp_all
    with Cons.prems(2) have "length ps' = length xs"
      by simp
    from Cons.IH [OF rest [folded g1] this] show ?thesis
      by (simp add: r Inr ps)
  qed
qed

lemma series_step:
  "0 < n \<Longrightarrow> n \<le> maxSize \<Longrightarrow> series n maxSize = n # series (n * 2) maxSize"
  by (subst series.simps) simp

lemma series_stop: "\<not> n \<le> maxSize \<Longrightarrow> series n maxSize = []"
  by (subst series.simps) simp

lemma speed_loop_step:
  "n \<le> maxSize \<Longrightarrow>
   speed_loop rt m maxSize n prev w =
     (case size_step rt m n prev w of
        (Inl e, w1) \<Rightarrow> Some (Inl e, w1)
      | (Inr mu, w1) \<Rightarrow> speed_loop rt m maxSize (n * 2) mu w1)"
  by (subst speed_loop.simps) simp

lemma speed_loop_stop:
  "\<not> n \<le> maxSize \<Longrightarrow> speed_loop rt m maxSize n prev w = Some (Inr (), w)"
  by (subst speed_loop.simps) simp

lemma speed_loop_total:
  assumes "0 < n"
  shows "\<exists>res w'. speed_loop rt m maxSize n prev w = Some (res, w')"
  using assms
proof (induction n maxSize arbitrary: prev w rule: series.induct)
  case (1 n maxSize)
  show ?case
  proof (cases "n \<le> maxSize")
    case False
    then show ?thesis by (simp add: speed_loop_stop)
  next
    case True
    obtain r w1 where s: "size_step rt m n prev w = (r, w1)"
      by (cases "size_step rt m n prev w")
    show ?thesis
    proof (cases r)
      case (Inl e)
      with s True show ?thesis by (simp add: speed_loop_step)
    next
      case (Inr mu)
      from "1.prems" have "0 < n * 2" by simp
      from "1.IH" [OF conjI [OF "1.prems" True] this, of mu w1] s Inr True
      show ?thesis by (simp add: speed_loop_step)
    qed
  qed
qed

lemma speed_loop_ok:
  assumes "0 < n" and "gc_enabled w = False"
    and "speed_loop rt m maxSize n prev w = Some (Inr (), w')"
  shows "\<exists>bs. good_blocks rt m (series n maxSize) bs \<and>
           trace w' = trace w @ run_events (series n maxSize) prev bs \<and>
           gc_enabled w' = False \<and>
           gen_many (random rt) (concat (map (replicate 5) (series n maxSize))) (rng w)
             = (map fst (concat bs), rng w')"
  using assms
proof (induction n maxSize arbitrary: prev w rule: series.induct)
  case (1 n maxSize)
  show ?case
  proof (cases "n \<le> maxSize")
    case False
    with "1.prems" show ?thesis
      by (intro exI [of _ "[]"]) (simp add: speed_loop_stop series_stop good_blocks_def)
  next
    case True
    obtain r w1 where s: "size_step rt m n prev w = (r, w1)"
      by (cases "size_step rt m n prev w")
    with "1.prems"(3) True obtain mu where r: "r = Inr mu"
      by (cases r) (auto simp: speed_loop_step)
    with "1.prems"(3) True s
    have loop: "speed_loop rt m maxSize (n * 2) mu w1 = Some (Inr (), w')"
      by (simp add: speed_loop_step)
    from size_step_ok [OF "1.prems"(1,2) s [unfolded r]] obtain trials
      where trials: "length trials = 5" "list_all (good_trial rt m n) trials"
        "mu = mean (map duration trials)"
        "trace w1 = trace w @ block_events n prev trials"
        "gc_enabled w1 = False"
        "gen_many (random rt) (replicate 5 n) (rng w) = (map fst trials, rng w1)"
      by blast
    from "1.prems"(1) have pos: "0 < n * 2" by simp
    from "1.IH" [OF conjI [OF "1.prems"(1) True] pos trials(5) loop] obtain bs
      where bs: "good_blocks rt m (series (n * 2) maxSize) bs"
        "trace w' = trace w1 @ run_events (series (n * 2) maxSize) mu bs"
        "gc_enabled w' = False"
        "gen_many (random rt) (concat (map (replicate 5) (series (n * 2) maxSize))) (rng w1)
           = (map fst (concat bs), rng w')"
      by blast
    have len: "length (map fst trials) = length (replicate 5 n)"
      by (simp add: trials(1))
    have gen: "gen_many (random rt) (replicate 5 n @ concat (map (replicate 5) (series (n * 2) maxSize))) (rng w)
        = (map fst trials @ map fst (concat bs), rng w')"
      by (rule gen_many_append [OF trials(6) len bs(4)])
    have ser: "series n maxSize = n # series (n * 2) maxSize"
      by (rule series_step [OF "1.prems"(1) True])
    show ?thesis
      unfolding ser
      using trials bs gen
      by (intro exI [of _ "trials # bs"]) (simp add: good_blocks_def)
  qed
qed

lemma speed_loop_raised:
  assumes "0 < n" and "gc_enabled w = False"
    and "speed_loop rt m maxSize n prev w = Some (Inl x, w')"
  shows "\<exists>ns nf bs trials p t0 e.
           ns @ [nf] = take (Suc (length ns)) (series n maxSize) \<and>
           good_blocks rt m ns bs \<and>
           length trials < 5 \<and> list_all (good_trial rt m nf) trials \<and>
           x = Solver e \<and> m p = Inl e \<and> length (snd p) = nat nf \<and>
           trace w' = trace w @ run_events ns prev bs @
             GcCollect # concat (map trial_events trials) @ failed_events p t0 \<and>
           gc_enabled w' = False"
  using assms
proof (induction n maxSize arbitrary: prev w rule: series.induct)
  case (1 n maxSize)
  show ?case
  proof (cases "n \<le> maxSize")
    case False
    with "1.prems" show ?thesis
      by (simp add: speed_loop_stop)
  next
    case True
    have ser: "series n maxSize = n # series (n * 2) maxSize"
      by (rule series_step [OF "1.prems"(1) True])
    obtain r w1 where s: "size_step rt m n prev w = (r, w1)"
      by (cases "size_step rt m n prev w")
    show ?thesis
    proof (cases r)
      case (Inl y)
      with "1.prems"(3) True s have "y = x" "w1 = w'"
        by (simp_all add: speed_loop_step)
      with size_step_raised [OF "1.prems"(1,2) s [unfolded Inl]] obtain trials p t0 e
        where "length trials < 5" "list_all (good_trial rt m n) trials"
          "x = Solver e" "m p = Inl e" "length (snd p) = nat n"
          "trace w' = trace w @ GcCollect # concat (map trial_events trials) @ failed_events p t0"
          "gc_enabled w' = False"
        by blast
      moreover have "[] @ [n] = take (Suc (length ([] :: int list))) (series n maxSize)"
        unfolding ser by simp
      moreover have "good_blocks rt m [] []"
        by (simp add: good_blocks_def)
      moreover have "run_events [] prev [] = []"
        by simp
      ultimately show ?thesis
        by (intro exI [of _ "[]"] exI [of _ n] exI [of _ "[]"] exI [of _ trials]
            exI [of _ p] exI [of _ t0] exI [of _ e] conjI) simp_all
    next
      case (Inr mu)
      with "1.prems"(3) True s
      have loop: "speed_loop rt m maxSize (n * 2) mu w1 = Some (Inl x, w')"
        by (simp add: speed_loop_step)
      from size_step_ok [OF "1.prems"(1,2) s [unfolded Inr]] obtain b
        where b: "length b = 5" "list_all (good_trial rt m n) b"
          "mu = mean (map duration b)"
          "trace w1 = trace w @ block_events n prev b"
          "gc_enabled w1 = False"
        by blast
      from "1.prems"(1) have pos: "0 < n * 2" by simp
      from "1.IH" [OF conjI [OF "1.prems"(1) True] pos b(5) loop]
      obtain ns nf bs trials p t0 e
        where rest: "ns @ [nf] = take (Suc (length ns)) (series (n * 2) maxSize)"
          "good_blocks rt m ns bs"
          "length trials < 5" "list_all (good_trial rt m nf) trials"
          "x = Solver e" "m p = Inl e" "length (snd p) = nat nf"
          "trace w' = trace w1 @ run_events ns mu bs @
             GcCollect # concat (map trial_events trials) @ failed_events p t0"
          "gc_enabled w' = False"
        by (elim exE conjE) (rule that)
      have tk: "(n # ns) @ [nf] = take (Suc (length (n # ns))) (series n maxSize)"
        unfolding ser using rest(1) by simp
      have gb: "good_blocks rt m (n # ns) (b # bs)"
        using b(1,2) rest(2) by (simp add: good_blocks_def)
      have tr: "trace w' = trace w @ run_events (n # ns) prev (b # bs) @
             GcCollect # concat (map trial_events trials) @ failed_events p t0"
        by (simp add: rest(8) b(3,4))
      show ?thesis
        by (intro exI [of _ "n # ns"] exI [of _ nf] exI [of _ "b # bs"] exI [of _ trials]
            exI [of _ p] exI [of _ t0] exI [of _ e] conjI)
          (rule tk gb tr rest(3-7,9))+
    qed
  qed
qed

subsection \<open>Readings of the trace of a sweep\<close>

lemma printed_append: "printed (xs @ ys) = printed xs @ printed ys"
  by (induction xs rule: printed.induct) simp_all

lemma generated_append: "generated (xs @ ys) = generated xs @ generated ys"
  by (induction xs rule: generated.induct) simp_all

lemma called_append: "called (xs @ ys) = called xs @ called ys"
  by (induction xs rule: called.induct) simp_all

lemma printed_trial: "printed (trial_events tr @ es) = printed es"
  by (cases tr) (simp add: trial_events_def)

lemma generated_trial: "generated (trial_events tr @ es) = fst tr # generated es"
  by (cases tr) (simp add: trial_events_def)

lemma called_trial: "called (trial_events tr @ es) = (fst tr, False) # called es"
  by (cases tr) (simp add: trial_events_def)

lemma timed_calls_trial: "timed_calls (trial_events tr @ es) = timed_calls es"
  by (cases tr) (simp add: trial_events_def)

lemma count_collect_trial: "count_list (trial_events tr) GcCollect = 0"
  by (cases tr) (simp add: trial_events_def)

lemma count_enable_trial: "count_list (trial_events tr) GcEnable = 0"
  by (cases tr) (simp add: trial_events_def)

lemma printed_trials: "printed (concat (map trial_events trials) @ es) = printed es"
  by (induction trials) (simp_all add: printed_trial)

lemma generated_trials:
  "generated (concat (map trial_events trials) @ es) = map fst trials @ generated es"
  by (induction trials) (simp_all add: generated_trial)

lemma called_trials:
  "called (concat (map trial_events trials) @ es) = map (\<lambda>tr. (fst tr, False)) trials @ called es"
  by (induction trials) (simp_all add: called_trial)

lemma timed_calls_trials: "timed_calls (concat (map trial_events trials) @ es) = timed_calls es"
  by (induction trials) (simp_all add: timed_calls_trial)

lemma count_collect_trials:
  "count_list (concat (map trial_events trials)) GcCollect = 0"
  by (induction trials) (simp_all add: count_collect_trial)

lemma count_enable_trials:
  "count_list (concat (map trial_events trials)) GcEnable = 0"
  by (induction trials) (simp_all add: count_enable_trial)

lemma printed_block: "printed (block_events n prev b @ es) = report_of n prev b # printed es"
  by (simp add: block_events_def printed_trials)

lemma generated_block: "generated (block_events n prev b @ es) = map fst b @ generated es"
  by (simp add: block_events_def generated_trials)

lemma called_block:
  "called (block_events n prev b @ es) = map (\<lambda>tr. (fst tr, False)) b @ called es"
  by (simp add: block_events_def called_trials)

lemma timed_calls_block: "timed_calls (block_events n prev b @ es) = timed_calls es"
  by (simp add: block_events_def timed_calls_trials)

lemma count_collect_block:
  "count_list (block_events n prev b) GcCollect = Suc 0"
  by (simp add: block_events_def count_collect_trials)

lemma count_enable_block:
  "count_list (block_events n prev b) GcEnable = 0"
  by (simp add: block_events_def count_enable_trials)

lemma good_blocks_Nil [simp]: "good_blocks rt m [] bs \<longleftrightarrow> bs = []"
  by (simp add: good_blocks_def)

lemma good_blocks_Cons:
  "good_blocks rt m (n # ns) bs \<longleftrightarrow>
     (\<exists>b bs'. bs = b # bs' \<and> length b = 5 \<and> list_all (good_trial rt m n) b \<and>
        good_blocks rt m ns bs')"
  by (auto simp: good_blocks_def list_all2_Cons1)

lemma good_blocks_length: "good_blocks rt m ns bs \<Longrightarrow> length bs = length ns"
  by (simp add: good_blocks_def list_all2_lengthD)

lemma printed_run:
  "good_blocks rt m ns bs \<Longrightarrow>
   map rep_size (printed (run_events ns prev bs @ es)) = ns @ map rep_size (printed es) \<and>
   map rep_ratio (printed (run_events ns prev bs)) =
     ratios prev (map rep_mean (printed (run_events ns prev bs))) \<and>
   length (printed (run_events ns prev bs)) = length ns"
proof (induction ns arbitrary: prev bs)
  case Nil
  then show ?case by simp
next
  case (Cons n ns)
  from Cons.prems obtain b bs' where bs: "bs = b # bs'" and g: "good_blocks rt m ns bs'"
    by (auto simp: good_blocks_Cons)
  from Cons.IH [OF g, of "mean (map duration b)"] show ?case
    by (simp add: bs printed_block report_of_def)
qed

lemma generated_run:
  "good_blocks rt m ns bs \<Longrightarrow>
   generated (run_events ns prev bs @ es) = map fst (concat bs) @ generated es"
proof (induction ns arbitrary: prev bs)
  case Nil
  then show ?case by simp
next
  case (Cons n ns)
  from Cons.prems obtain b bs' where bs: "bs = b # bs'" and g: "good_blocks rt m ns bs'"
    by (auto simp: good_blocks_Cons)
  from Cons.IH [OF g, of "mean (map duration b)"] show ?case
    by (simp add: bs generated_block)
qed

lemma called_run:
  "good_blocks rt m ns bs \<Longrightarrow>
   called (run_events ns prev bs @ es) = map (\<lambda>tr. (fst tr, False)) (concat bs) @ called es"
proof (induction ns arbitrary: prev bs)
  case Nil
  then show ?case by simp
next
  case (Cons n ns)
  from Cons.prems obtain b bs' where bs: "bs = b # bs'" and g: "good_blocks rt m ns bs'"
    by (auto simp: good_blocks_Cons)
  from Cons.IH [OF g, of "mean (map duration b)"] show ?case
    by (simp add: bs called_block)
qed

lemma checks_run:
  "good_blocks rt m ns bs \<Longrightarrow>
   timed_calls (run_events ns prev bs @ es) = timed_calls es \<and>
   count_list (run_events ns prev bs) GcCollect = length ns \<and>
   count_list (run_events ns prev bs) GcEnable = 0 \<and>
   length (concat bs) = 5 * length ns"
proof (induction ns arbitrary: prev bs)
  case Nil
  then show ?case by simp
next
  case (Cons n ns)
  from Cons.prems obtain b bs' where bs: "bs = b # bs'" and g: "good_blocks rt m ns bs'"
    and l: "length b = 5"
    by (auto simp: good_blocks_Cons)
  from Cons.IH [OF g, of "mean (map duration b)"] l show ?case
    by (simp add: bs timed_calls_block count_collect_block count_enable_block)
qed

lemma good_run_solved:
  "good_blocks rt m ns bs \<Longrightarrow> tr \<in> set (concat bs) \<Longrightarrow> \<exists>x. m (fst tr) = Inr x"
proof (induction ns arbitrary: bs)
  case Nil
  then show ?case by simp
next
  case (Cons n ns)
  from Cons.prems(1) obtain b bs' where bs: "bs = b # bs'" and g: "good_blocks rt m ns bs'"
    and b: "list_all (good_trial rt m n) b"
    by (auto simp: good_blocks_Cons)
  from Cons.prems(2) bs consider "tr \<in> set b" | "tr \<in> set (concat bs')"
    by auto
  then show ?case
  proof cases
    case 1
    with b have "good_trial rt m n tr"
      by (simp add: list_all_iff)
    then show ?thesis
      by (cases tr) (auto simp: good_trial_def)
  next
    case 2
    from Cons.IH [OF g this] show ?thesis .
  qed
qed

subsection \<open>The whole sweep\<close>

lemma speed_start:
  "gc_enabled (gc_disable (set_seed rt s w)) = False \<and>
   trace (gc_disable (set_seed rt s w)) = trace w @ [Seed s, GcDisable] \<and>
   rng (gc_disable (set_seed rt s w)) = seed rt s"
  by (simp add: gc_disable_def set_seed_def emit_def)

lemma speed_total: "\<exists>res w'. speed rt m maxSize w = Some (res, w')"
proof -
  from speed_loop_total [of 50 rt m maxSize 0 "gc_disable (set_seed rt 123456 w)"]
  obtain res w1
    where l: "speed_loop rt m maxSize 50 0 (gc_disable (set_seed rt 123456 w)) = Some (res, w1)"
    by auto
  show ?thesis
    by (cases res) (simp_all add: speed_def Let_def l)
qed

lemma speed_ok:
  assumes "speed rt m maxSize w = Some (Inr (), w')"
  shows "\<exists>bs. good_blocks rt m (series 50 maxSize) bs \<and>
           trace w' = trace w @ [Seed 123456, GcDisable] @
             run_events (series 50 maxSize) 0 bs @ [GcEnable] \<and>
           gc_enabled w' = True \<and>
           gen_many (random rt) (concat (map (replicate 5) (series 50 maxSize))) (seed rt 123456)
             = (map fst (concat bs), rng w')"
proof -
  let ?w2 = "gc_disable (set_seed rt 123456 w)"
  from speed_loop_total [of 50 rt m maxSize 0 ?w2] obtain res w3
    where l: "speed_loop rt m maxSize 50 0 ?w2 = Some (res, w3)"
    by auto
  with assms have res: "res = Inr ()" and w': "w' = gc_enable w3"
    by (cases res; simp add: speed_def Let_def)+
  have pos: "(0::int) < 50" by simp
  from speed_start [of rt 123456 w] have off: "gc_enabled ?w2 = False"
    and tr: "trace ?w2 = trace w @ [Seed 123456, GcDisable]"
    and rg: "rng ?w2 = seed rt 123456"
    by simp_all
  from speed_loop_ok [OF pos off l [unfolded res]] obtain bs
    where bs: "good_blocks rt m (series 50 maxSize) bs"
      "trace w3 = trace ?w2 @ run_events (series 50 maxSize) 0 bs"
      "gen_many (random rt) (concat (map (replicate 5) (series 50 maxSize))) (rng ?w2)
         = (map fst (concat bs), rng w3)"
    by blast
  show ?thesis
    using bs tr rg
    by (intro exI [of _ bs]) (simp add: w' gc_enable_def emit_def)
qed

lemma speed_raised:
  assumes "speed rt m maxSize w = Some (Inl x, w')"
  shows "\<exists>ns nf bs trials p t0 e.
           ns @ [nf] = take (Suc (length ns)) (series 50 maxSize) \<and>
           good_blocks rt m ns bs \<and>
           length trials < 5 \<and> list_all (good_trial rt m nf) trials \<and>
           x = Solver e \<and> m p = Inl e \<and> length (snd p) = nat nf \<and>
           trace w' = trace w @ [Seed 123456, GcDisable] @ run_events ns 0 bs @
             GcCollect # concat (map trial_events trials) @ failed_events p t0 \<and>
           gc_enabled w' = False"
proof -
  let ?w2 = "gc_disable (set_seed rt 123456 w)"
  from speed_loop_total [of 50 rt m maxSize 0 ?w2] obtain res w3
    where l: "speed_loop rt m maxSize 50 0 ?w2 = Some (res, w3)"
    by auto
  with assms have res: "res = Inl x" and w': "w' = w3"
    by (cases res; simp add: speed_def Let_def)+
  have pos: "(0::int) < 50" by simp
  from speed_start [of rt 123456 w] have off: "gc_enabled ?w2 = False"
    and tr: "trace ?w2 = trace w @ [Seed 123456, GcDisable]"
    by simp_all
  from speed_loop_raised [OF pos off l [unfolded res]] show ?thesis
    unfolding tr w' by simp
qed

lemma speed_succeeds:
  assumes "\<And>p. \<exists>x. m p = Inr x"
  shows "\<exists>w'. speed rt m maxSize w = Some (Inr (), w')"
proof -
  from speed_total [of rt m maxSize w] obtain res w'
    where s: "speed rt m maxSize w = Some (res, w')"
    by blast
  show ?thesis
  proof (cases res)
    case (Inl x)
    from speed_raised [OF s [unfolded Inl]] obtain p e where "m p = Inl e"
      by (elim exE conjE)
    with assms [of p] show ?thesis
      by auto
  next
    case (Inr u)
    with s show ?thesis
      by simp
  qed
qed

lemma printed_block_only: "printed (block_events n prev b) = [report_of n prev b]"
  using printed_block [of n prev b "[]"] by simp

lemma series_positive: "x \<in> set (series n maxSize) \<Longrightarrow> 0 < x"
proof (induction n maxSize rule: series.induct)
  case (1 n maxSize)
  show ?case
  proof (cases "0 < n \<and> n \<le> maxSize")
    case True
    with "1.prems" have "x = n \<or> x \<in> set (series (n * 2) maxSize)"
      by (simp add: series_step)
    with True "1.IH" show ?thesis
      by auto
  next
    case False
    then have "series n maxSize = []"
      by (subst series.simps) simp
    with "1.prems" show ?thesis
      by simp
  qed
qed

lemma series_powers:
  "0 < n \<Longrightarrow>
   \<exists>K. series n maxSize = map (\<lambda>k. n * 2 ^ k) [0..<K] \<and> (\<forall>k. k < K \<longleftrightarrow> n * 2 ^ k \<le> maxSize)"
proof (induction n maxSize rule: series.induct)
  case (1 n maxSize)
  show ?case
  proof (cases "n \<le> maxSize")
    case False
    have "\<not> n * 2 ^ k \<le> maxSize" for k
    proof -
      have "n * 1 \<le> n * 2 ^ k"
        using "1.prems" by (intro mult_left_mono) simp_all
      with False show ?thesis
        by simp
    qed
    with False show ?thesis
      by (intro exI [of _ 0]) (simp add: series_stop)
  next
    case True
    from "1.prems" have pos: "0 < n * 2"
      by simp
    from "1.IH" [OF conjI [OF "1.prems" True] pos] obtain K
      where K: "series (n * 2) maxSize = map (\<lambda>k. n * 2 * 2 ^ k) [0..<K]"
        and iff: "\<And>k. k < K \<longleftrightarrow> n * 2 * 2 ^ k \<le> maxSize"
      by blast
    have "series n maxSize = n # map (\<lambda>k. n * 2 ^ Suc k) [0..<K]"
      by (simp add: series_step [OF "1.prems" True] K mult.assoc)
    also have "\<dots> = map (\<lambda>k. n * 2 ^ k) [0..<Suc K]"
      by (simp add: map_upt_Suc del: upt_Suc)
    finally have s: "series n maxSize = map (\<lambda>k. n * 2 ^ k) [0..<Suc K]" .
    have "k < Suc K \<longleftrightarrow> n * 2 ^ k \<le> maxSize" for k
    proof (cases k)
      case 0
      with True show ?thesis by simp
    next
      case (Suc j)
      with iff [of j] show ?thesis
        by (simp add: mult.assoc)
    qed
    with s show ?thesis
      by blast
  qed
qed

lemma series_50_50: "series 50 50 = [50]"
  by (simp add: series_step series_stop)

lemma series_50_100: "series 50 100 = [50, 100]"
  by (simp add: series_step series_stop)

lemma series_50_400: "series 50 400 = 50 # series 100 400"
  by (simp add: series_step)

lemma mean_zero: "\<forall>x \<in> set xs. x = 0 \<Longrightarrow> mean xs = 0"
proof -
  assume "\<forall>x \<in> set xs. x = 0"
  then have "sum_list xs = 0"
    by (induction xs) simp_all
  then show ?thesis
    by (simp add: mean_def)
qed

lemma coarse_duration: "good_trial coarse_rt m n tr \<Longrightarrow> duration tr = 0"
  by (cases tr) (auto simp: good_trial_def duration_def coarse_rt_def)

lemma coarse_mean:
  assumes "list_all (good_trial coarse_rt m n) b"
  shows "mean (map duration b) = 0"
proof (rule mean_zero)
  show "\<forall>x \<in> set (map duration b). x = 0"
    using assms by (auto simp: list_all_iff coarse_duration)
qed

lemma collected_trials:
  "collected_per_size True (concat (map trial_events trials) @ es) = collected_per_size True es"
proof (induction trials)
  case Nil
  show ?case by simp
next
  case (Cons tr trials)
  then show ?case
    by (cases tr) (simp add: trial_events_def)
qed

lemma collected_run:
  "good_blocks rt m ns bs \<Longrightarrow> collected_per_size f (run_events ns prev bs @ [GcEnable])"
proof (induction ns arbitrary: prev bs f)
  case Nil
  then show ?case by simp
next
  case (Cons n ns)
  from Cons.prems obtain b bs' where bs: "bs = b # bs'" and g: "good_blocks rt m ns bs'"
    by (auto simp: good_blocks_Cons)
  from Cons.IH [OF g, of False "mean (map duration b)"] show ?case
    by (simp add: bs block_events_def collected_trials)
qed

lemma m_ok_solves: "\<exists>x. m_ok p = Inr x"
  by (simp add: m_ok_def)

lemma m_copy_solves: "\<exists>x. m_copy p = Inr x"
  by (simp add: m_copy_def)

lemma trace_w0: "trace world0 = []"
  by (simp add: world0_def)

lemma trace_w1: "trace world1 = []"
  by (simp add: world1_def)

subsection \<open>Determinism, sizes and ratios\<close>

lemma run_trace_facts:
  assumes "good_blocks rt m ns bs"
    and "es = [Seed s, GcDisable] @ run_events ns prev bs @ [GcEnable]"
  shows "map rep_size (printed es) = ns"
    and "map rep_ratio (printed es) = ratios prev (map rep_mean (printed es))"
    and "generated es = map fst (concat bs)"
    and "called es = map (\<lambda>tr. (fst tr, False)) (concat bs)"
    and "timed_calls es"
    and "count_list es GcCollect = length ns"
    and "count_list es GcEnable = 1"
    and "length (concat bs) = 5 * length ns"
    and "collected_per_size False es"
    and "last es = GcEnable"
proof -
  have p: "printed es = printed (run_events ns prev bs)"
    by (simp add: assms(2) printed_append)
  from printed_run [OF assms(1), of prev "[]"] show "map rep_size (printed es) = ns"
    and "map rep_ratio (printed es) = ratios prev (map rep_mean (printed es))"
    by (simp_all add: p)
  from generated_run [OF assms(1), of prev "[GcEnable]"]
  show "generated es = map fst (concat bs)"
    by (simp add: assms(2))
  from called_run [OF assms(1), of prev "[GcEnable]"]
  show "called es = map (\<lambda>tr. (fst tr, False)) (concat bs)"
    by (simp add: assms(2))
  from checks_run [OF assms(1), of prev "[GcEnable]"]
  show "timed_calls es" and "count_list es GcCollect = length ns"
    and "count_list es GcEnable = 1" and "length (concat bs) = 5 * length ns"
    by (simp_all add: assms(2))
  from collected_run [OF assms(1), of False prev]
  show "collected_per_size False es"
    by (simp add: assms(2))
  show "last es = GcEnable"
    by (simp add: assms(2))
qed

text \<open>
  Claim C4. Generation is deterministic in the seed: seeding with \<open>X\<close> and generating an
  instance of size \<open>n\<close> gives the same result whatever the generator's state was before,
  and two sweeps of \<open>speed\<close> that complete, with any two solvers, clocks and starting
  states, generate the same instances in the same order.
\<close>

theorem seeded_generation_deterministic:
  assumes "random rta = random rtb" and "seed rta = seed rtb"
  shows "fst (randP rta n (set_seed rta X wa)) = fst (randP rtb n (set_seed rtb X wb)) \<and>
         (\<forall>wa' wb'. speed rta ma maxSize wa = Some (Inr (), wa') \<and>
                     speed rtb mb maxSize wb = Some (Inr (), wb') \<longrightarrow>
            (\<exists>es1 es2. trace wa' = trace wa @ es1 \<and> trace wb' = trace wb @ es2 \<and>
               generated es1 = generated es2))"
proof (intro conjI allI impI)
  show "fst (randP rta n (set_seed rta X wa)) = fst (randP rtb n (set_seed rtb X wb))"
    by (simp add: randP_def set_seed_def emit_def assms split: prod.splits sum.splits)
next
  fix wa' wb'
  assume runs: "speed rta ma maxSize wa = Some (Inr (), wa') \<and>
    speed rtb mb maxSize wb = Some (Inr (), wb')"
  let ?ns = "series 50 maxSize"
  from runs speed_ok [of rta ma maxSize wa wa'] obtain bs1
    where b1: "good_blocks rta ma ?ns bs1"
      and t1: "trace wa' = trace wa @ [Seed 123456, GcDisable] @ run_events ?ns 0 bs1 @ [GcEnable]"
      and g1: "gen_many (random rta) (concat (map (replicate 5) ?ns)) (seed rta 123456)
                 = (map fst (concat bs1), rng wa')"
    by blast
  from runs speed_ok [of rtb mb maxSize wb wb'] obtain bs2
    where b2: "good_blocks rtb mb ?ns bs2"
      and t2: "trace wb' = trace wb @ [Seed 123456, GcDisable] @ run_events ?ns 0 bs2 @ [GcEnable]"
      and g2: "gen_many (random rtb) (concat (map (replicate 5) ?ns)) (seed rtb 123456)
                 = (map fst (concat bs2), rng wb')"
    by blast
  let ?es1 = "[Seed 123456, GcDisable] @ run_events ?ns 0 bs1 @ [GcEnable]"
  let ?es2 = "[Seed 123456, GcDisable] @ run_events ?ns 0 bs2 @ [GcEnable]"
  from g1 g2 assms have "map fst (concat bs1) = map fst (concat bs2)"
    by simp
  then have "generated ?es1 = generated ?es2"
    by (simp only: run_trace_facts(3) [OF b1 refl] run_trace_facts(3) [OF b2 refl])
  with t1 t2 show "\<exists>es1 es2. trace wa' = trace wa @ es1 \<and> trace wb' = trace wb @ es2 \<and>
               generated es1 = generated es2"
    by blast
qed

theorem seeded_generation_deterministic_witness:
  "random coarse_rt = random coarse_rt \<and> seed coarse_rt = seed coarse_rt \<and>
   fst (randP coarse_rt 100 (set_seed coarse_rt 7 world0))
     = fst (randP coarse_rt 100 (set_seed coarse_rt 7 world1)) \<and>
   (\<exists>w0' w1'. speed coarse_rt m_ok 100 world0 = Some (Inr (), w0') \<and>
      speed coarse_rt m_copy 100 world1 = Some (Inr (), w1') \<and>
      generated (trace w0') = generated (trace w1'))"
proof -
  from speed_succeeds [of m_ok coarse_rt 100 world0] m_ok_solves obtain w0'
    where r0: "speed coarse_rt m_ok 100 world0 = Some (Inr (), w0')"
    by blast
  from speed_succeeds [of m_copy coarse_rt 100 world1] m_copy_solves obtain w1'
    where r1: "speed coarse_rt m_copy 100 world1 = Some (Inr (), w1')"
    by blast
  have e1: "random coarse_rt = random coarse_rt" and e2: "seed coarse_rt = seed coarse_rt"
    by simp_all
  note det = seeded_generation_deterministic [where rta = coarse_rt and rtb = coarse_rt
      and n = 100 and X = 7 and wa = world0 and wb = world1 and ma = m_ok and maxSize = 100
      and mb = m_copy, OF e1 e2]
  from det have a: "fst (randP coarse_rt 100 (set_seed coarse_rt 7 world0))
     = fst (randP coarse_rt 100 (set_seed coarse_rt 7 world1))"
    by (rule conjunct1)
  from det have "\<forall>w0' w1'. speed coarse_rt m_ok 100 world0 = Some (Inr (), w0') \<and>
       speed coarse_rt m_copy 100 world1 = Some (Inr (), w1') \<longrightarrow>
       (\<exists>es1 es2. trace w0' = trace world0 @ es1 \<and> trace w1' = trace world1 @ es2 \<and>
          generated es1 = generated es2)"
    by (rule conjunct2)
  with r0 r1 obtain es1 es2 where "trace w0' = trace world0 @ es1" "trace w1' = trace world1 @ es2"
    "generated es1 = generated es2"
    by blast
  then have g: "generated (trace w0') = generated (trace w1')"
    by (simp add: trace_w0 trace_w1)
  show ?thesis
    by (intro conjI exI [of _ w0'] exI [of _ w1']) (rule e1 e2 a r0 r1 g)+
qed

text \<open>
  Claim C5 (as stated, refuted). With a clock too coarse to tell two readings apart, the
  mean of the first size is zero, and the second size is reported without a ratio.
\<close>

theorem speed_ratio_counterexample:
  "\<exists>w'. speed coarse_rt m_ok 100 world0 = Some (Inr (), w') \<and>
     map rep_size (printed (trace w')) = [50, 100] \<and>
     map rep_ratio (printed (trace w')) = [None, None]"
proof -
  from speed_succeeds [of m_ok coarse_rt 100 world0] m_ok_solves obtain w'
    where r: "speed coarse_rt m_ok 100 world0 = Some (Inr (), w')"
    by blast
  from speed_ok [OF r] obtain bs
    where g: "good_blocks coarse_rt m_ok [50, 100] bs"
      and t: "trace w' = [Seed 123456, GcDisable] @ run_events [50, 100] 0 bs @ [GcEnable]"
    unfolding series_50_100 trace_w0 by auto
  from g obtain b1 b2 where bs: "bs = [b1, b2]"
    and g1: "list_all (good_trial coarse_rt m_ok 50) b1"
    by (auto simp: good_blocks_Cons)
  have p: "printed (trace w') = [report_of 50 0 b1, report_of 100 (mean (map duration b1)) b2]"
    by (simp add: t bs printed_append printed_block printed_block_only)
  have "map rep_ratio (printed (trace w')) = [None, None]"
    by (simp add: p report_of_def coarse_mean [OF g1])
  moreover have "map rep_size (printed (trace w')) = [50, 100]"
    by (simp add: p report_of_def)
  ultimately show ?thesis
    by (intro exI [of _ w'] conjI) (simp_all add: r)
qed

text \<open>
  Claim C5 (amended). \<open>speed\<close> always terminates. In a sweep that no failure aborts, the
  sizes reported are exactly the numbers \<open>50 \<sqdot> 2\<^sup>k\<close> that are at most \<open>maxSize\<close>, in
  increasing order; the first report has no ratio, and a later report has the ratio of its
  mean to the previous mean exactly when the previous mean is positive, and none otherwise.
\<close>

theorem speed_sizes_ratios:
  "(\<exists>res w'. speed rt m maxSize w = Some (res, w')) \<and>
   (\<forall>w'. speed rt m maxSize w = Some (Inr (), w') \<longrightarrow>
      (\<exists>es K. trace w' = trace w @ es \<and>
         map rep_size (printed es) = map (\<lambda>k. 50 * 2 ^ k) [0..<K] \<and>
         (\<forall>k. k < K \<longleftrightarrow> 50 * 2 ^ k \<le> maxSize) \<and>
         map rep_ratio (printed es) = ratios 0 (map rep_mean (printed es))))"
proof (intro conjI allI impI)
  show "\<exists>res w'. speed rt m maxSize w = Some (res, w')"
    by (rule speed_total)
next
  fix w'
  assume r: "speed rt m maxSize w = Some (Inr (), w')"
  let ?ns = "series 50 maxSize"
  from speed_ok [OF r] obtain bs
    where g: "good_blocks rt m ?ns bs"
      and t: "trace w' = trace w @ [Seed 123456, GcDisable] @ run_events ?ns 0 bs @ [GcEnable]"
    by blast
  let ?es = "[Seed 123456, GcDisable] @ run_events ?ns 0 bs @ [GcEnable]"
  have pos: "(0::int) < 50" by simp
  from series_powers [OF pos, of maxSize] obtain K
    where K: "?ns = map (\<lambda>k. 50 * 2 ^ k) [0..<K]"
      and iff: "\<forall>k. k < K \<longleftrightarrow> 50 * 2 ^ k \<le> maxSize"
    by blast
  have "map rep_size (printed ?es) = map (\<lambda>k. 50 * 2 ^ k) [0..<K]"
    using run_trace_facts(1) [OF g refl, of 123456 0] K by simp
  moreover have "map rep_ratio (printed ?es) = ratios 0 (map rep_mean (printed ?es))"
    by (rule run_trace_facts(2) [OF g refl])
  ultimately show "\<exists>es K. trace w' = trace w @ es \<and>
         map rep_size (printed es) = map (\<lambda>k. 50 * 2 ^ k) [0..<K] \<and>
         (\<forall>k. k < K \<longleftrightarrow> 50 * 2 ^ k \<le> maxSize) \<and>
         map rep_ratio (printed es) = ratios 0 (map rep_mean (printed es))"
    using t iff by blast
qed

theorem speed_sizes_ratios_witness:
  "\<exists>w' K. speed coarse_rt m_ok 100 world0 = Some (Inr (), w') \<and>
     map rep_size (printed (trace w')) = map (\<lambda>k. 50 * 2 ^ k) [0..<K] \<and>
     (\<forall>k. k < K \<longleftrightarrow> 50 * 2 ^ k \<le> (100::int)) \<and>
     map rep_ratio (printed (trace w')) = ratios 0 (map rep_mean (printed (trace w')))"
proof -
  from speed_succeeds [of m_ok coarse_rt 100 world0] m_ok_solves obtain w'
    where r: "speed coarse_rt m_ok 100 world0 = Some (Inr (), w')"
    by blast
  from speed_sizes_ratios [of coarse_rt m_ok 100 world0] r obtain es K
    where "trace w' = trace world0 @ es"
      "map rep_size (printed es) = map (\<lambda>k. 50 * 2 ^ k) [0..<K]"
      "\<forall>k. k < K \<longleftrightarrow> 50 * 2 ^ k \<le> (100::int)"
      "map rep_ratio (printed es) = ratios 0 (map rep_mean (printed es))"
    by blast
  with r show ?thesis
    by (auto simp: trace_w0)
qed

subsection \<open>Trials and the collector\<close>

lemma means_run:
  "good_blocks rt m ns bs \<Longrightarrow>
   map rep_mean (printed (run_events ns prev bs)) = map (\<lambda>b. mean (map duration b)) bs"
proof (induction ns arbitrary: prev bs)
  case Nil
  then show ?case by simp
next
  case (Cons n ns)
  from Cons.prems obtain b bs' where bs: "bs = b # bs'" and g: "good_blocks rt m ns bs'"
    by (auto simp: good_blocks_Cons)
  from Cons.IH [OF g, of "mean (map duration b)"] show ?case
    by (simp add: bs printed_block report_of_def)
qed

lemma coarse_run_50:
  "\<exists>w' b. speed coarse_rt m_ok 50 world0 = Some (Inr (), w') \<and>
     good_blocks coarse_rt m_ok [50] [b] \<and>
     trace w' = [Seed 123456, GcDisable] @ run_events [50] 0 [b] @ [GcEnable]"
proof -
  from speed_succeeds [of m_ok coarse_rt 50 world0] m_ok_solves obtain w'
    where r: "speed coarse_rt m_ok 50 world0 = Some (Inr (), w')"
    by blast
  from speed_ok [OF r] obtain bs
    where g: "good_blocks coarse_rt m_ok [50] bs"
      and t: "trace w' = [Seed 123456, GcDisable] @ run_events [50] 0 bs @ [GcEnable]"
    unfolding series_50_50 trace_w0 by auto
  from g obtain b where "bs = [b]"
    by (auto simp: good_blocks_Cons)
  with r g t show ?thesis
    by blast
qed

text \<open>
  Claim C6 (as stated, refuted). A sweep over the single size 50 prints one report and
  generates five instances: one for every trial, not one for the size.
\<close>

theorem speed_instances_counterexample:
  "\<exists>w'. speed coarse_rt m_ok 50 world0 = Some (Inr (), w') \<and>
     length (printed (trace w')) = 1 \<and> length (generated (trace w')) = 5"
proof -
  from coarse_run_50 obtain w' b
    where r: "speed coarse_rt m_ok 50 world0 = Some (Inr (), w')"
      and g: "good_blocks coarse_rt m_ok [50] [b]"
      and t: "trace w' = [Seed 123456, GcDisable] @ run_events [50] 0 [b] @ [GcEnable]"
    by blast
  from run_trace_facts(1) [OF g t] have "length (map rep_size (printed (trace w'))) = 1"
    by simp
  then have p: "length (printed (trace w')) = 1"
    by simp
  from run_trace_facts(3,8) [OF g t] have "length (generated (trace w')) = 5"
    by simp
  with r p show ?thesis
    by blast
qed

text \<open>
  Claim C6 (amended). In a sweep that completes, the effects are, after seeding and
  disabling the collector, one block per size of the series and a final enabling of the
  collector. The block of a size is one collection, five trials and the report; a trial
  generates its own instance in the untimed setup, reads the timer, calls the solver once
  on that instance and reads the timer again. So the instances called are the instances
  generated, in order, five per size; every call stands between two timer readings; and
  the mean reported for a size is the mean of the five differences of its readings.
\<close>

theorem speed_trial_protocol:
  assumes "speed rt m maxSize w = Some (Inr (), w')"
  shows "\<exists>es bs. trace w' = trace w @ es \<and>
           es = [Seed 123456, GcDisable] @ run_events (series 50 maxSize) 0 bs @ [GcEnable] \<and>
           good_blocks rt m (series 50 maxSize) bs \<and>
           map fst (called es) = generated es \<and>
           length (generated es) = 5 * length (series 50 maxSize) \<and>
           timed_calls es \<and>
           map rep_mean (printed es) = map (\<lambda>b. mean (map duration b)) bs"
proof -
  let ?ns = "series 50 maxSize"
  from speed_ok [OF assms] obtain bs
    where g: "good_blocks rt m ?ns bs"
      and t: "trace w' = trace w @ [Seed 123456, GcDisable] @ run_events ?ns 0 bs @ [GcEnable]"
    by blast
  let ?es = "[Seed 123456, GcDisable] @ run_events ?ns 0 bs @ [GcEnable]"
  note f = run_trace_facts [OF g refl [of ?es]]
  have c: "map fst (called ?es) = generated ?es"
    unfolding f(3) f(4) by (simp add: comp_def)
  have l: "length (generated ?es) = 5 * length ?ns"
    unfolding f(3) using f(8) by simp
  have "printed ?es = printed (run_events ?ns 0 bs)"
    by (simp add: printed_append)
  then have mn: "map rep_mean (printed ?es) = map (\<lambda>b. mean (map duration b)) bs"
    using means_run [OF g, of 0] by simp
  show ?thesis
    by (intro exI [of _ ?es] exI [of _ bs] conjI) (rule t refl g c l f(5) mn)+
qed

theorem speed_trial_protocol_witness:
  "\<exists>w' b. speed coarse_rt m_ok 50 world0 = Some (Inr (), w') \<and>
     trace w' = [Seed 123456, GcDisable] @ run_events (series 50 50) 0 [b] @ [GcEnable] \<and>
     good_blocks coarse_rt m_ok (series 50 50) [b] \<and>
     map fst (called (trace w')) = generated (trace w') \<and>
     length (generated (trace w')) = 5 \<and> timed_calls (trace w') \<and>
     map rep_mean (printed (trace w')) = [mean (map duration b)]"
proof -
  from speed_succeeds [of m_ok coarse_rt 50 world0] m_ok_solves obtain w'
    where r: "speed coarse_rt m_ok 50 world0 = Some (Inr (), w')"
    by blast
  from speed_trial_protocol [OF r] obtain es bs
    where e: "trace w' = trace world0 @ es"
      "es = [Seed 123456, GcDisable] @ run_events (series 50 50) 0 bs @ [GcEnable]"
      "good_blocks coarse_rt m_ok (series 50 50) bs"
      "map fst (called es) = generated es"
      "length (generated es) = 5 * length (series 50 50)"
      "timed_calls es"
      "map rep_mean (printed es) = map (\<lambda>b. mean (map duration b)) bs"
    by (elim exE conjE)
  from e(3) obtain b where bs: "bs = [b]"
    by (auto simp: series_50_50 good_blocks_Cons)
  have tr: "trace w' = es"
    by (simp add: e(1) trace_w0)
  show ?thesis
    using r e(2-7) unfolding bs
    by (intro exI [of _ w'] exI [of _ b] conjI) (simp_all add: tr series_50_50)
qed

text \<open>
  Claim C8 (as stated, refuted). A sweep over the single size 50 makes five timed calls
  and forces one collection, before the first of them.
\<close>

theorem speed_collect_counterexample:
  "\<exists>w'. speed coarse_rt m_ok 50 world0 = Some (Inr (), w') \<and>
     length (called (trace w')) = 5 \<and> count_list (trace w') GcCollect = 1"
proof -
  from coarse_run_50 obtain w' b
    where r: "speed coarse_rt m_ok 50 world0 = Some (Inr (), w')"
      and g: "good_blocks coarse_rt m_ok [50] [b]"
      and t: "trace w' = [Seed 123456, GcDisable] @ run_events [50] 0 [b] @ [GcEnable]"
    by blast
  from run_trace_facts(4,8) [OF g t] have "length (called (trace w')) = 5"
    by simp
  moreover from run_trace_facts(6) [OF g t] have "count_list (trace w') GcCollect = 1"
    by simp
  ultimately show ?thesis
    using r by blast
qed

text \<open>
  Claim C8 (amended). In a sweep that completes, the collector is forced once per size,
  before the five trials of that size: every call comes after a collection made since the
  previous report. The collector is disabled at every solver call, every call stands
  directly between the two timer readings of its trial, and the collector is enabled
  once, as the last effect of the sweep.
\<close>

theorem speed_gc_protocol:
  assumes "speed rt m maxSize w = Some (Inr (), w')"
  shows "\<exists>es. trace w' = trace w @ es \<and>
           count_list es GcCollect = length (series 50 maxSize) \<and>
           length (called es) = 5 * length (series 50 maxSize) \<and>
           collected_per_size False es \<and>
           list_all (\<lambda>c. snd c = False) (called es) \<and>
           timed_calls es \<and>
           count_list es GcEnable = 1 \<and> last es = GcEnable \<and> gc_enabled w' = True"
proof -
  let ?ns = "series 50 maxSize"
  from speed_ok [OF assms] obtain bs
    where g: "good_blocks rt m ?ns bs"
      and t: "trace w' = trace w @ [Seed 123456, GcDisable] @ run_events ?ns 0 bs @ [GcEnable]"
      and on: "gc_enabled w' = True"
    by blast
  let ?es = "[Seed 123456, GcDisable] @ run_events ?ns 0 bs @ [GcEnable]"
  note f = run_trace_facts [OF g refl [of ?es]]
  have l: "length (called ?es) = 5 * length ?ns"
    unfolding f(4) using f(8) by simp
  have off: "list_all (\<lambda>c. snd c = False) (called ?es)"
    unfolding f(4) by (simp add: list_all_iff)
  show ?thesis
    by (intro exI [of _ ?es] conjI) (rule t f(6) l f(9) off f(5) f(7) f(10) on)+
qed

theorem speed_gc_protocol_witness:
  "\<exists>w'. speed coarse_rt m_ok 50 world0 = Some (Inr (), w') \<and>
     count_list (trace w') GcCollect = 1 \<and> length (called (trace w')) = 5 \<and>
     collected_per_size False (trace w') \<and>
     list_all (\<lambda>c. snd c = False) (called (trace w')) \<and> timed_calls (trace w') \<and>
     count_list (trace w') GcEnable = 1 \<and> last (trace w') = GcEnable \<and>
     gc_enabled w' = True"
proof -
  from speed_succeeds [of m_ok coarse_rt 50 world0] m_ok_solves obtain w'
    where r: "speed coarse_rt m_ok 50 world0 = Some (Inr (), w')"
    by blast
  from speed_gc_protocol [OF r] obtain es
    where e: "trace w' = trace world0 @ es"
      "count_list es GcCollect = length (series 50 50)"
      "length (called es) = 5 * length (series 50 50)"
      "collected_per_size False es"
      "list_all (\<lambda>c. snd c = False) (called es)"
      "timed_calls es"
      "count_list es GcEnable = 1" "last es = GcEnable" "gc_enabled w' = True"
    by (elim exE conjE)
  have tr: "trace w' = es"
    by (simp add: e(1) trace_w0)
  show ?thesis
    using r e(2-9)
    by (intro exI [of _ w'] conjI) (simp_all add: tr series_50_50)
qed

subsection \<open>Failures\<close>

lemma printed_failed: "printed (GcCollect # concat (map trial_events trials) @ failed_events p t0) = []"
  by (simp add: printed_trials failed_events_def)

lemma last_failed:
  "last (xs @ ys @ GcCollect # concat (map trial_events trials) @ failed_events p t0) = Call p False"
  by (simp add: failed_events_def)

lemma speed_raised_facts:
  assumes "speed rt m maxSize w = Some (Inl x, w')"
  shows "\<exists>e p es. x = Solver e \<and> m p = Inl e \<and> trace w' = trace w @ es \<and>
           last es = Call p False \<and> gc_enabled w' = False \<and>
           map rep_size (printed es) @ [int (length (snd p))]
             = take (Suc (length (printed es))) (series 50 maxSize)"
proof -
  from speed_raised [OF assms] obtain ns nf bs trials p t0 e
    where s: "ns @ [nf] = take (Suc (length ns)) (series 50 maxSize)"
      "good_blocks rt m ns bs"
      "x = Solver e" "m p = Inl e" "length (snd p) = nat nf"
      "trace w' = trace w @ [Seed 123456, GcDisable] @ run_events ns 0 bs @
         GcCollect # concat (map trial_events trials) @ failed_events p t0"
      "gc_enabled w' = False"
    by (elim exE conjE)
  let ?tail = "GcCollect # concat (map trial_events trials) @ failed_events p t0"
  let ?es = "[Seed 123456, GcDisable] @ run_events ns 0 bs @ ?tail"
  have "nf \<in> set (ns @ [nf])"
    by simp
  then have "nf \<in> set (series 50 maxSize)"
    unfolding s(1) by (rule in_set_takeD)
  then have "0 < nf"
    by (rule series_positive)
  with s(5) have nf: "int (length (snd p)) = nf"
    by simp
  have pr: "printed ?es = printed (run_events ns 0 bs @ ?tail)"
    by simp
  from printed_run [OF s(2), of 0 ?tail] have sz: "map rep_size (printed ?es) = ns"
    unfolding pr by (simp add: printed_trials failed_events_def)
  then have "length (map rep_size (printed ?es)) = length ns"
    by simp
  then have len: "length (printed ?es) = length ns"
    by simp
  have tk: "map rep_size (printed ?es) @ [int (length (snd p))]
      = take (Suc (length (printed ?es))) (series 50 maxSize)"
    unfolding sz nf len by (rule s(1))
  have la: "last ?es = Call p False"
    using last_failed [of "[Seed 123456, GcDisable]" "run_events ns 0 bs" trials p t0] by simp
  show ?thesis
    by (intro exI [of _ e] exI [of _ p] exI [of _ ?es] conjI) (rule s(3,4,6,7) la tk)+
qed

lemma speed_m_fail:
  "\<exists>w'. speed coarse_rt m_fail 400 world0 = Some (Inl (Solver ()), w') \<and> printed (trace w') = []"
proof -
  from speed_total [of coarse_rt m_fail 400 world0] obtain res w'
    where r: "speed coarse_rt m_fail 400 world0 = Some (res, w')"
    by blast
  have no_good: "\<not> list_all (good_trial coarse_rt m_fail n) b" if "length b = 5" for n b
  proof
    assume a: "list_all (good_trial coarse_rt m_fail n) b"
    from that obtain tr rest where "b = tr # rest"
      by (cases b) auto
    with a have "good_trial coarse_rt m_fail n tr"
      by simp
    then show False
      by (cases tr) (simp add: good_trial_def m_fail_def)
  qed
  have no_blocks: "ns = []" if "good_blocks coarse_rt m_fail ns bs" for ns bs
  proof (cases ns)
    case Nil
    then show ?thesis .
  next
    case (Cons n ns')
    with that no_good show ?thesis
      by (auto simp: good_blocks_Cons)
  qed
  show ?thesis
  proof (cases res)
    case (Inr u)
    with r have "speed coarse_rt m_fail 400 world0 = Some (Inr (), w')"
      by simp
    from speed_ok [OF this] obtain bs
      where "good_blocks coarse_rt m_fail (series 50 400) bs"
      by auto
    from no_blocks [OF this] show ?thesis
      by (simp add: series_50_400)
  next
    case (Inl x)
    from speed_raised [OF r [unfolded Inl]] obtain ns bs trials p t0 e
      where s: "good_blocks coarse_rt m_fail ns bs" "x = Solver e"
        "trace w' = trace world0 @ [Seed 123456, GcDisable] @ run_events ns 0 bs @
           GcCollect # concat (map trial_events trials) @ failed_events p t0"
      by (elim exE conjE)
    from no_blocks [OF s(1)] have ns: "ns = []" .
    have "printed (trace w') = []"
      unfolding s(3) ns trace_w0 by (simp add: printed_trials failed_events_def)
    moreover have "x = Solver ()"
      by (simp add: s(2))
    ultimately show ?thesis
      using r Inl by simp
  qed
qed

text \<open>
  Claim C9 (as stated, refuted). When the solver fails on the first instance, what the
  caller gets is the solver's own exception, and nothing has been printed: neither the
  exception nor the output names the size 50 or the seed.
\<close>

theorem speed_failure_counterexample:
  "\<exists>w'. speed coarse_rt m_fail 400 world0 = Some (Inl (Solver ()), w') \<and> printed (trace w') = []"
  by (rule speed_m_fail)

text \<open>
  Claim C9 (amended). A failure of the solver is never swallowed: when the sweep ends
  with an exception, it is the exception the solver raised on the instance of the last
  call, passed on unchanged, the call is the last effect, the collector is left disabled,
  and the reports printed are those of the sizes before the failing one, which gets no
  line; when the sweep completes, the solver has returned normally at every call. The
  harness itself adds neither the size nor the seed to the exception or to the output.
\<close>

theorem speed_failure_propagates:
  "(\<forall>x w'. speed rt m maxSize w = Some (Inl x, w') \<longrightarrow>
      (\<exists>e p es. x = Solver e \<and> m p = Inl e \<and> trace w' = trace w @ es \<and>
         last es = Call p False \<and> gc_enabled w' = False \<and>
         map rep_size (printed es) @ [int (length (snd p))]
           = take (Suc (length (printed es))) (series 50 maxSize))) \<and>
   (\<forall>w'. speed rt m maxSize w = Some (Inr (), w') \<longrightarrow>
      (\<exists>es. trace w' = trace w @ es \<and> (\<forall>c \<in> set (called es). \<exists>r. m (fst c) = Inr r)))"
proof (intro conjI allI impI)
  fix x w'
  assume "speed rt m maxSize w = Some (Inl x, w')"
  then show "\<exists>e p es. x = Solver e \<and> m p = Inl e \<and> trace w' = trace w @ es \<and>
         last es = Call p False \<and> gc_enabled w' = False \<and>
         map rep_size (printed es) @ [int (length (snd p))]
           = take (Suc (length (printed es))) (series 50 maxSize)"
    by (rule speed_raised_facts)
next
  fix w'
  assume r: "speed rt m maxSize w = Some (Inr (), w')"
  let ?ns = "series 50 maxSize"
  from speed_ok [OF r] obtain bs
    where g: "good_blocks rt m ?ns bs"
      and t: "trace w' = trace w @ [Seed 123456, GcDisable] @ run_events ?ns 0 bs @ [GcEnable]"
    by blast
  let ?es = "[Seed 123456, GcDisable] @ run_events ?ns 0 bs @ [GcEnable]"
  have "\<forall>c \<in> set (called ?es). \<exists>r. m (fst c) = Inr r"
    unfolding run_trace_facts(4) [OF g refl] using good_run_solved [OF g] by auto
  with t show "\<exists>es. trace w' = trace w @ es \<and> (\<forall>c \<in> set (called es). \<exists>r. m (fst c) = Inr r)"
    by blast
qed

theorem speed_failure_propagates_witness:
  "\<exists>w' p. speed coarse_rt m_fail 400 world0 = Some (Inl (Solver ()), w') \<and>
     m_fail p = Inl () \<and> last (trace w') = Call p False \<and> gc_enabled w' = False \<and>
     map rep_size (printed (trace w')) @ [int (length (snd p))]
       = take (Suc (length (printed (trace w')))) (series 50 400)"
proof -
  from speed_m_fail obtain w'
    where r: "speed coarse_rt m_fail 400 world0 = Some (Inl (Solver ()), w')"
    by blast
  from speed_failure_propagates [of coarse_rt m_fail 400 world0] r obtain e p es
    where e: "m_fail p = Inl e" "trace w' = trace world0 @ es" "last es = Call p False"
      "gc_enabled w' = False"
      "map rep_size (printed es) @ [int (length (snd p))]
         = take (Suc (length (printed es))) (series 50 400)"
    by blast
  have tr: "trace w' = es"
    by (simp add: e(2) trace_w0)
  show ?thesis
    using r e(1,3,4,5)
    by (intro exI [of _ w'] exI [of _ p] conjI) (simp_all add: tr)
qed

end
